theory Spec2Isabelle
  imports Main "HOL-Library.AList"
begin

section \<open>Schema model (xsd/types.ts)\<close>

text \<open>
  The repository converts JSON into XML under the guidance of an XSD schema.  The schema
  is held in a \<open>SchemaModel\<close>; its three registries are JavaScript \<open>Map\<close>s, which keep
  insertion order and bind every key once.  A \<open>Map\<close> is modelled as an association list
  with \<open>map_of\<close> for \<open>get\<close>, membership in the keys for \<open>has\<close>, and
  \<open>AList.update\<close> for \<open>set\<close> (replace in place, or append a new key at the end).
\<close>

datatype attrUse = Required | Optional | Prohibited

record attributeDef =
  attr_name :: string
  attr_type :: string
  attr_use :: attrUse
  attr_default :: "string option"
  attr_fixed :: "string option"

datatype occurs = Bounded int | Unbounded

datatype compositor = Sequence | All | Choice

datatype elementDef =
  ElementDef
    (el_name: string)
    (typeName: "string option")
    (inlineComplexType: "complexTypeDef option")
    (minOccurs: int)
    (maxOccurs: occurs)
    (el_attributes: "attributeDef list")
    (children: "elementDef list")
    (el_namespace: "string option")
    (isArray: bool)
and complexTypeDef =
  ComplexTypeDef
    (ct_name: string)
    (ct_compositor: compositor)
    (ct_elements: "elementDef list")
    (ct_attributes: "attributeDef list")
    (hasTextContent: bool)
    (extends: "string option")
    (hasWildcard: "bool option")

record simpleTypeDef =
  st_name :: string
  st_base :: string

type_synonym ('k, 'v) jsmap = "('k \<times> 'v) list"

definition Map_has :: "('k, 'v) jsmap \<Rightarrow> 'k \<Rightarrow> bool" where
  "Map_has m k = (k \<in> fst ` set m)"

definition Map_get :: "('k, 'v) jsmap \<Rightarrow> 'k \<Rightarrow> 'v option" where
  "Map_get m k = map_of m k"

definition Map_set :: "'k \<Rightarrow> 'v \<Rightarrow> ('k, 'v) jsmap \<Rightarrow> ('k, 'v) jsmap" where
  "Map_set k v m = AList.update k v m"

record schemaModel =
  rootElement :: string
  elements :: "(string, elementDef) jsmap"
  complexTypes :: "(string, complexTypeDef) jsmap"
  simpleTypes :: "(string, simpleTypeDef) jsmap"
  targetNamespace :: "string option"

section \<open>Schema walker (xsd/walker.ts)\<close>

definition XS_SIMPLE_TYPES :: "string list" where
  "XS_SIMPLE_TYPES =
    [''xs:string'', ''xs:integer'', ''xs:int'', ''xs:long'', ''xs:short'', ''xs:decimal'',
     ''xs:float'', ''xs:double'', ''xs:boolean'', ''xs:date'', ''xs:time'', ''xs:dateTime'',
     ''xs:duration'', ''xs:anyURI'', ''xs:base64Binary'', ''xs:hexBinary'', ''xs:token'',
     ''xs:normalizedString'', ''xs:positiveInteger'', ''xs:nonNegativeInteger'',
     ''xs:negativeInteger'', ''xs:nonPositiveInteger'', ''xs:unsignedInt'',
     ''xs:unsignedLong'', ''xs:unsignedShort'', ''xs:byte'', ''xs:unsignedByte'', ''xs:ID'',
     ''xs:IDREF'', ''xs:NMTOKEN'', ''xs:Name'', ''xs:QName'', ''xs:anyType'']"

definition lookupElement :: "schemaModel \<Rightarrow> string \<Rightarrow> elementDef option" where
  "lookupElement m n = Map_get (elements m) n"

definition lookupComplexType :: "schemaModel \<Rightarrow> string \<Rightarrow> complexTypeDef option" where
  "lookupComplexType m n = Map_get (complexTypes m) n"

text \<open>
  \<open>if (el.typeName)\<close> is a truthiness test: an absent and an empty type name both fail it.
\<close>

definition truthy :: "string option \<Rightarrow> bool" where
  "truthy s = (case s of None \<Rightarrow> False | Some t \<Rightarrow> t \<noteq> [])"

definition resolveComplexTypeForElement ::
  "schemaModel \<Rightarrow> elementDef \<Rightarrow> complexTypeDef option" where
  "resolveComplexTypeForElement m el =
     (case inlineComplexType el of
        Some ct \<Rightarrow> Some ct
      | None \<Rightarrow> (if truthy (typeName el) then Map_get (complexTypes m) (the (typeName el))
                 else None))"

definition isSimpleType :: "schemaModel \<Rightarrow> string option \<Rightarrow> bool" where
  "isSimpleType m tn =
     (if \<not> truthy tn then True
      else if the tn \<in> set XS_SIMPLE_TYPES then True
      else Map_has (simpleTypes m) (the tn))"

text \<open>
  \<open>resolveAllElements\<close> walks the \<open>extends\<close> chain.  The \<open>visited\<close> set holds type
  names; the first test returns the type's own elements when its name was seen before.
  The recursion ends because every call that recurses adds a name to \<open>visited\<close>, and
  the names that can still be added are those of the finitely many registered types.
\<close>

definition registeredNames :: "schemaModel \<Rightarrow> string set" where
  "registeredNames m = ct_name ` snd ` set (complexTypes m)"

function resolveAllElements ::
  "schemaModel \<Rightarrow> complexTypeDef \<Rightarrow> string set \<Rightarrow> elementDef list" where
  "resolveAllElements m ct visited =
     (if ct_name ct \<in> visited then ct_elements ct
      else if \<not> truthy (extends ct) then ct_elements ct
      else (case Map_get (complexTypes m) (the (extends ct)) of
              None \<Rightarrow> ct_elements ct
            | Some baseCt \<Rightarrow>
                resolveAllElements m baseCt (insert (ct_name ct) visited) @ ct_elements ct))"
  by pat_completeness auto

lemma Map_get_registered:
  "Map_get (complexTypes m) k = Some ct \<Longrightarrow> ct_name ct \<in> registeredNames m"
  unfolding Map_get_def registeredNames_def
  by (metis image_eqI map_of_SomeD snd_conv)

lemma finite_registeredNames: "finite (registeredNames m)"
  by (simp add: registeredNames_def)

lemma chain_measure_decreases:
  assumes "n \<notin> visited" and "b \<in> registeredNames m"
  shows "card (registeredNames m - insert n visited) + (if b \<in> registeredNames m then 0 else 1)
         < card (registeredNames m - visited) + (if n \<in> registeredNames m then 0 else 1)"
proof (cases "n \<in> registeredNames m")
  case True
  then have "registeredNames m - insert n visited \<subset> registeredNames m - visited"
    using assms(1) by blast
  then have "card (registeredNames m - insert n visited) < card (registeredNames m - visited)"
    by (simp add: finite_registeredNames psubset_card_mono)
  then show ?thesis using True assms(2) by simp
next
  case False
  then have "registeredNames m - insert n visited = registeredNames m - visited"
    by blast
  then show ?thesis using False assms(2) by simp
qed

termination resolveAllElements
  apply (relation "measure (\<lambda>(m, ct, visited).
           card (registeredNames m - visited)
           + (if ct_name ct \<in> registeredNames m then 0 else 1))")
   apply simp
  apply (simp only: in_measure prod.case)
  apply (rule chain_measure_decreases)
   apply assumption
  apply (erule Map_get_registered)
  done

declare resolveAllElements.simps [simp del]

definition getChildElementsForElement :: "schemaModel \<Rightarrow> elementDef \<Rightarrow> elementDef list" where
  "getChildElementsForElement m el =
     (case resolveComplexTypeForElement m el of
        None \<Rightarrow> children el
      | Some ct \<Rightarrow> resolveAllElements m ct {})"

text \<open>
  The contents of the \<open>visited\<close> set when \<open>resolveAllElements\<close> returns: the set is
  mutated in place, and this function reads it off the same recursion.
\<close>

function visitedAfter :: "schemaModel \<Rightarrow> complexTypeDef \<Rightarrow> string set \<Rightarrow> string set" where
  "visitedAfter m ct visited =
     (if ct_name ct \<in> visited then visited
      else if \<not> truthy (extends ct) then insert (ct_name ct) visited
      else (case Map_get (complexTypes m) (the (extends ct)) of
              None \<Rightarrow> insert (ct_name ct) visited
            | Some baseCt \<Rightarrow> visitedAfter m baseCt (insert (ct_name ct) visited)))"
  by pat_completeness auto

termination visitedAfter
  apply (relation "measure (\<lambda>(m, ct, visited).
           card (registeredNames m - visited)
           + (if ct_name ct \<in> registeredNames m then 0 else 1))")
   apply simp
  apply (simp only: in_measure prod.case)
  apply (rule chain_measure_decreases)
   apply assumption
  apply (erule Map_get_registered)
  done

declare visitedAfter.simps [simp del]

section \<open>JSON values and key lookup (types.ts, utils.ts)\<close>

text \<open>
  A JSON number is held as its canonical rendering, the string that \<open>String(n)\<close>
  returns, so that no floating-point arithmetic has to be modelled.  A JSON object is
  the list of its own entries in \<open>Object.keys\<close> order.  A character is a code unit
  below 256, that is a character of Latin-1, the encoding of the TISS schemas.
\<close>

datatype json =
    JNull
  | JBool bool
  | JNum string
  | JStr string
  | JArr "json list"
  | JObj "(string \<times> json) list"

definition dq :: string where
  "dq = [CHR 0x22]"

fun digits :: "nat \<Rightarrow> string" where
  "digits n =
     (if n < 10 then [''0123456789'' ! n]
      else digits (n div 10) @ [''0123456789'' ! (n mod 10)])"

declare digits.simps [simp del]

definition showInt :: "int \<Rightarrow> string" where
  "showInt i = (if i < 0 then ''-'' @ digits (nat (- i)) else digits (nat i))"

fun joinWith :: "string \<Rightarrow> string list \<Rightarrow> string" where
  "joinWith sep [] = []"
| "joinWith sep [x] = x"
| "joinWith sep (x # y # ys) = x @ sep @ joinWith sep (y # ys)"

text \<open>
  \<open>String(value)\<close>: an array is its items joined by commas, a \<open>null\<close> item giving the
  empty string; an object is the fixed text of \<open>Object.prototype.toString\<close>.
\<close>

fun jsString :: "json \<Rightarrow> string" where
  "jsString JNull = ''null''"
| "jsString (JBool b) = (if b then ''true'' else ''false'')"
| "jsString (JNum s) = s"
| "jsString (JStr s) = s"
| "jsString (JArr xs) = joinWith '','' (map (\<lambda>x. if x = JNull then [] else jsString x) xs)"
| "jsString (JObj kvs) = ''[object Object]''"

text \<open>
  \<open>toLowerCase\<close> on the characters below 256: the letters \<open>A\<close> to \<open>Z\<close>, and the
  capital letters of Latin-1 from \<open>0xC0\<close> to \<open>0xDE\<close> without the multiplication sign
  \<open>0xD7\<close>, each lowered by adding \<open>0x20\<close>; every other character below 256 is its
  own lower case.
\<close>

definition lowerChar :: "char \<Rightarrow> char" where
  "lowerChar c =
     (case map_of
             (zip (''ABCDEFGHIJKLMNOPQRSTUVWXYZ''
                   @ [CHR 0xC0, CHR 0xC1, CHR 0xC2, CHR 0xC3, CHR 0xC4, CHR 0xC5, CHR 0xC6,
                      CHR 0xC7, CHR 0xC8, CHR 0xC9, CHR 0xCA, CHR 0xCB, CHR 0xCC, CHR 0xCD,
                      CHR 0xCE, CHR 0xCF, CHR 0xD0, CHR 0xD1, CHR 0xD2, CHR 0xD3, CHR 0xD4,
                      CHR 0xD5, CHR 0xD6, CHR 0xD8, CHR 0xD9, CHR 0xDA, CHR 0xDB, CHR 0xDC,
                      CHR 0xDD, CHR 0xDE])
                  (''abcdefghijklmnopqrstuvwxyz''
                   @ [CHR 0xE0, CHR 0xE1, CHR 0xE2, CHR 0xE3, CHR 0xE4, CHR 0xE5, CHR 0xE6,
                      CHR 0xE7, CHR 0xE8, CHR 0xE9, CHR 0xEA, CHR 0xEB, CHR 0xEC, CHR 0xED,
                      CHR 0xEE, CHR 0xEF, CHR 0xF0, CHR 0xF1, CHR 0xF2, CHR 0xF3, CHR 0xF4,
                      CHR 0xF5, CHR 0xF6, CHR 0xF8, CHR 0xF9, CHR 0xFA, CHR 0xFB, CHR 0xFC,
                      CHR 0xFD, CHR 0xFE])) c of
        Some l \<Rightarrow> l
      | None \<Rightarrow> c)"

definition toLowerCase :: "string \<Rightarrow> string" where
  "toLowerCase s = map lowerChar s"

definition Object_keys :: "(string \<times> json) list \<Rightarrow> string list" where
  "Object_keys obj = map fst obj"

definition hasOwnProperty :: "(string \<times> json) list \<Rightarrow> string \<Rightarrow> bool" where
  "hasOwnProperty obj name = (name \<in> set (Object_keys obj))"

text \<open>
  \<open>obj[key]\<close> for a key that the object owns, as in \<open>lookupCI\<close> after \<open>hasOwnProperty\<close>
  and in the loops over \<open>Object.keys\<close>.
\<close>

definition ownProp :: "(string \<times> json) list \<Rightarrow> string \<Rightarrow> json option" where
  "ownProp obj key = map_of obj key"

text \<open>
  \<open>obj[key]\<close> for any key.  An object that came from JSON text inherits from
  \<open>Object.prototype\<close>, so that a key it does not own still reads one of the members of
  the prototype: one of its eleven functions, or the prototype itself under
  \<open>__proto__\<close>.  What a read can return is therefore a JSON value, one of these
  functions (named by its key), the prototype, or \<open>undefined\<close>.
\<close>

datatype jsval = Undefined | Value json | Builtin string | ObjectPrototype

definition prototypeFunctions :: "string list" where
  "prototypeFunctions =
     [''constructor'', ''__defineGetter__'', ''__defineSetter__'', ''hasOwnProperty'',
      ''__lookupGetter__'', ''__lookupSetter__'', ''isPrototypeOf'', ''propertyIsEnumerable'',
      ''toString'', ''valueOf'', ''toLocaleString'']"

definition inherited :: "string \<Rightarrow> jsval" where
  "inherited key =
     (if key = ''__proto__'' then ObjectPrototype
      else if key \<in> set prototypeFunctions then Builtin key
      else Undefined)"

definition objGet :: "(string \<times> json) list \<Rightarrow> string \<Rightarrow> jsval" where
  "objGet obj key = (case map_of obj key of Some v \<Rightarrow> Value v | None \<Rightarrow> inherited key)"

text \<open>
  \<open>String(v)\<close> of what a read returned.  A function of the prototype prints as native
  code under its name, which for \<open>constructor\<close> is \<open>Object\<close>.
\<close>

definition stringOf :: "jsval \<Rightarrow> string" where
  "stringOf v =
     (case v of
        Undefined \<Rightarrow> ''undefined''
      | Value j \<Rightarrow> jsString j
      | Builtin key \<Rightarrow>
          ''function '' @ (if key = ''constructor'' then ''Object'' else key)
            @ ''() { [native code] }''
      | ObjectPrototype \<Rightarrow> ''[object Object]'')"

fun scanCI :: "(string \<times> json) list \<Rightarrow> string list \<Rightarrow> string \<Rightarrow> json option" where
  "scanCI obj [] lower = None"
| "scanCI obj (key # keys) lower =
     (if toLowerCase key = lower then ownProp obj key else scanCI obj keys lower)"

definition lookupCI :: "(string \<times> json) list \<Rightarrow> string \<Rightarrow> json option" where
  "lookupCI obj name =
     (if hasOwnProperty obj name then ownProp obj name
      else scanCI obj (Object_keys obj) (toLowerCase name))"

definition lowerSet :: "string list \<Rightarrow> string set" where
  "lowerSet names = set (map toLowerCase names)"

definition startsWith :: "string \<Rightarrow> string \<Rightarrow> bool" where
  "startsWith s p = (take (length p) s = p)"

definition slice :: "string \<Rightarrow> nat \<Rightarrow> string" where
  "slice s n = drop n s"

section \<open>XML node tree (the builder interface of xmlbuilder2)\<close>

text \<open>
  The serializer is an external library; the builder's result is the node tree it
  hands over.  \<open>node.ele\<close> creates a child element, \<open>node.att\<close> sets an attribute (replacing an
  earlier value of the same name), \<open>node.txt\<close> appends a text node.  The tree is a value
  here, so a child is attached once its own content has been built; an exception
  aborts the whole build, so the order of these two steps cannot be observed.
\<close>

datatype xml =
    Element (tag: string) (attrs: "(string \<times> string) list") (kids: "xml list")
  | Text string

definition node_ele :: "string \<Rightarrow> xml" where
  "node_ele name = Element name [] []"

fun node_att :: "xml \<Rightarrow> string \<Rightarrow> string \<Rightarrow> xml" where
  "node_att (Element t as ks) k v = Element t (AList.update k v as) ks"
| "node_att (Text s) k v = Text s"

fun node_txt :: "xml \<Rightarrow> string \<Rightarrow> xml" where
  "node_txt (Element t as ks) s = Element t as (ks @ [Text s])"
| "node_txt (Text s') s = Text s'"

fun attach :: "xml \<Rightarrow> xml \<Rightarrow> xml" where
  "attach (Element t as ks) child = Element t as (ks @ [child])"
| "attach (Text s) child = Text s"

section \<open>Walker queries used by the builder and the validator\<close>

function resolveAllAttributes ::
  "schemaModel \<Rightarrow> complexTypeDef \<Rightarrow> string set \<Rightarrow> attributeDef list" where
  "resolveAllAttributes m ct visited =
     (if ct_name ct \<in> visited then ct_attributes ct
      else if \<not> truthy (extends ct) then ct_attributes ct
      else (case Map_get (complexTypes m) (the (extends ct)) of
              None \<Rightarrow> ct_attributes ct
            | Some baseCt \<Rightarrow>
                resolveAllAttributes m baseCt (insert (ct_name ct) visited) @ ct_attributes ct))"
  by pat_completeness auto

termination resolveAllAttributes
  apply (relation "measure (\<lambda>(m, ct, visited).
           card (registeredNames m - visited)
           + (if ct_name ct \<in> registeredNames m then 0 else 1))")
   apply simp
  apply (simp only: in_measure prod.case)
  apply (rule chain_measure_decreases)
   apply assumption
  apply (erule Map_get_registered)
  done

declare resolveAllAttributes.simps [simp del]

definition getAttributesForElement :: "schemaModel \<Rightarrow> elementDef \<Rightarrow> attributeDef list" where
  "getAttributesForElement m el =
     (case resolveComplexTypeForElement m el of
        None \<Rightarrow> el_attributes el
      | Some ct \<Rightarrow> resolveAllAttributes m ct {})"

text \<open>
  \<open>resolveHasWildcard\<close> tests the wildcard flag first and the visited set second, and
  adds the name only when it goes on to the base type.
\<close>

function resolveHasWildcard :: "schemaModel \<Rightarrow> complexTypeDef \<Rightarrow> string set \<Rightarrow> bool" where
  "resolveHasWildcard m ct visited =
     (if hasWildcard ct = Some True then True
      else if \<not> truthy (extends ct) \<or> ct_name ct \<in> visited then False
      else (case Map_get (complexTypes m) (the (extends ct)) of
              None \<Rightarrow> False
            | Some baseCt \<Rightarrow> resolveHasWildcard m baseCt (insert (ct_name ct) visited)))"
  by pat_completeness auto

termination resolveHasWildcard
  apply (relation "measure (\<lambda>(m, ct, visited).
           card (registeredNames m - visited)
           + (if ct_name ct \<in> registeredNames m then 0 else 1))")
   apply simp
  apply (simp only: in_measure prod.case)
  apply (rule chain_measure_decreases)
   apply simp
  apply (erule Map_get_registered)
  done

declare resolveHasWildcard.simps [simp del]

definition hasWildcardForElement :: "schemaModel \<Rightarrow> elementDef \<Rightarrow> bool" where
  "hasWildcardForElement m el =
     (case resolveComplexTypeForElement m el of
        None \<Rightarrow> False
      | Some ct \<Rightarrow> resolveHasWildcard m ct {})"

section \<open>Mapping engine (xml/builder.ts)\<close>

datatype mappingError = XsdMappingError (err_path: string) (err_message: string)

record buildOptions =
  prettyPrint :: bool
  xmlDeclaration :: bool
  encoding :: string
  attributePrefix :: string
  textNodeKey :: string
  opt_targetNamespace :: "string option"

definition Array_isArray :: "json \<Rightarrow> bool" where
  "Array_isArray v = (case v of JArr xs \<Rightarrow> True | _ \<Rightarrow> False)"

definition arrayItems :: "json \<Rightarrow> json list" where
  "arrayItems v = (case v of JArr xs \<Rightarrow> xs | _ \<Rightarrow> [])"

text \<open>\<open>typeof value === 'object'\<close> holds of objects, arrays and \<open>null\<close>.\<close>

definition typeofObject :: "json \<Rightarrow> bool" where
  "typeofObject v = (case v of JNull \<Rightarrow> True | JArr xs \<Rightarrow> True | JObj kvs \<Rightarrow> True | _ \<Rightarrow> False)"

definition asJsonObject :: "json \<Rightarrow> (string \<times> json) list" where
  "asJsonObject v = (case v of JObj kvs \<Rightarrow> kvs | _ \<Rightarrow> [])"

lemma size_entry: "(k, v) \<in> set kvs \<Longrightarrow> size v < size (JObj kvs)"
  by (induction kvs) auto

lemma size_item: "x \<in> set xs \<Longrightarrow> size x < size (JArr xs)"
  by (induction xs) auto

lemma size_arrayItems: "x \<in> set (arrayItems v) \<Longrightarrow> size x < size v"
proof (cases v)
  case (JArr xs)
  assume "x \<in> set (arrayItems v)"
  then have "x \<in> set xs" using JArr by (simp add: arrayItems_def)
  then show ?thesis using JArr size_item by blast
qed (simp_all add: arrayItems_def)

lemma size_enumerate_item: "(i, x) \<in> set (enumerate n (arrayItems v)) \<Longrightarrow> size x < size v"
  by (rule size_arrayItems) (auto simp: in_set_enumerate_eq)

lemma size_asJsonObject: "(k, c) \<in> set (asJsonObject v) \<Longrightarrow> size c < size v"
proof (cases v)
  case (JObj kvs)
  assume "(k, c) \<in> set (asJsonObject v)"
  then have "(k, c) \<in> set kvs" using JObj by (simp add: asJsonObject_def)
  then show ?thesis using JObj size_entry by blast
qed (simp_all add: asJsonObject_def)

lemma size_ownProp: "ownProp (asJsonObject v) k = Some c \<Longrightarrow> size c < size v"
  unfolding ownProp_def by (blast dest: map_of_SomeD size_asJsonObject)

lemma scanCI_size: "scanCI (asJsonObject v) ks l = Some c \<Longrightarrow> size c < size v"
  by (induction ks) (auto dest: size_ownProp split: if_splits)

lemma size_lookupCI: "lookupCI (asJsonObject v) k = Some c \<Longrightarrow> size c < size v"
  by (auto simp: lookupCI_def dest: size_ownProp scanCI_size split: if_splits)

lemma size_the_lookupCI:
  "lookupCI (asJsonObject v) k \<noteq> None \<Longrightarrow> size (the (lookupCI (asJsonObject v) k)) < size v"
  using size_lookupCI by fastforce

lemma size_item_of_entry:
  "(k, c) \<in> set (asJsonObject v) \<Longrightarrow> (i, x) \<in> set (enumerate n (arrayItems c))
     \<Longrightarrow> size x < size v"
  using size_asJsonObject size_enumerate_item order_less_trans by blast

lemma size_item_of_lookupCI:
  "lookupCI (asJsonObject v) k \<noteq> None
     \<Longrightarrow> (i, x) \<in> set (enumerate n (arrayItems (the (lookupCI (asJsonObject v) k))))
     \<Longrightarrow> size x < size v"
  using size_the_lookupCI size_enumerate_item order_less_trans by blast

text \<open>
  \<open>JSON.stringify\<close> on a JSON value: no indentation, strings quoted with the quote, the
  backslash and the control characters escaped.
\<close>

definition hexDigit :: "nat \<Rightarrow> char" where
  "hexDigit n = ''0123456789abcdef'' ! n"

definition escapeChar :: "char \<Rightarrow> string" where
  "escapeChar c =
     (if c = CHR 0x22 then [CHR 0x5C, CHR 0x22]
      else if c = CHR 0x5C then [CHR 0x5C, CHR 0x5C]
      else if c = CHR 0x08 then [CHR 0x5C, CHR ''b'']
      else if c = CHR 0x0C then [CHR 0x5C, CHR ''f'']
      else if c = CHR 0x0A then [CHR 0x5C, CHR ''n'']
      else if c = CHR 0x0D then [CHR 0x5C, CHR ''r'']
      else if c = CHR 0x09 then [CHR 0x5C, CHR ''t'']
      else if (of_char c :: nat) < 32
      then [CHR 0x5C, CHR ''u'', CHR ''0'', CHR ''0'',
            hexDigit (of_char c div 16), hexDigit (of_char c mod 16)]
      else [c])"

definition quote :: "string \<Rightarrow> string" where
  "quote s = dq @ concat (map escapeChar s) @ dq"

fun JSON_stringify :: "json \<Rightarrow> string" where
  "JSON_stringify JNull = ''null''"
| "JSON_stringify (JBool b) = (if b then ''true'' else ''false'')"
| "JSON_stringify (JNum s) = s"
| "JSON_stringify (JStr s) = quote s"
| "JSON_stringify (JArr xs) = ''['' @ joinWith '','' (map JSON_stringify xs) @ '']''"
| "JSON_stringify (JObj kvs) =
     ''{'' @ joinWith '','' (map (\<lambda>(k, v). quote k @ '':'' @ JSON_stringify v) kvs) @ ''}''"

function buildWildcardValue ::
  "xml \<Rightarrow> json \<Rightarrow> string \<Rightarrow> string \<Rightarrow> string \<Rightarrow> xml" where
  "buildWildcardValue node val path ap tk =
     (if val = JNull then node
      else if \<not> typeofObject val then node_txt node (jsString val)
      else if Array_isArray val then node_txt node (JSON_stringify val)
      else
        fold (\<lambda>(key, v) node.
               if v = JNull then node
               else if key = tk then node_txt node (jsString v)
               else if startsWith key ap then node_att node (slice key (length ap)) (jsString v)
               else if Array_isArray v then
                 fold (\<lambda>(i, item) node.
                        attach node
                          (buildWildcardValue (node_ele key) item
                             (path @ ''.'' @ key @ ''['' @ digits i @ '']'') ap tk))
                      (enumerate 0 (arrayItems v)) node
               else
                 attach node
                   (buildWildcardValue (node_ele key) v (path @ ''.'' @ key) ap tk))
             (asJsonObject val) node)"
  by pat_completeness auto

termination buildWildcardValue
  apply (relation "measure (\<lambda>(node, val, path, ap, tk). size val)")
    apply simp
   apply (auto intro: size_item_of_entry size_asJsonObject)
  done

declare buildWildcardValue.simps [simp del]

definition applyAttribute ::
  "(string \<times> json) list \<Rightarrow> string \<Rightarrow> attributeDef \<Rightarrow> xml \<Rightarrow> xml" where
  "applyAttribute obj ap attrDef node =
     (let key = ap @ attr_name attrDef;
          attrValue = lookupCI obj key
      in if attrValue \<noteq> None \<and> attrValue \<noteq> Some JNull
         then node_att node (attr_name attrDef) (jsString (the attrValue))
         else if attr_default attrDef \<noteq> None
         then node_att node (attr_name attrDef) (the (attr_default attrDef))
         else node)"

definition wildcardPassThrough ::
  "string \<Rightarrow> string \<Rightarrow> string set \<Rightarrow> (string \<times> json) list \<Rightarrow> string \<Rightarrow> xml \<Rightarrow> xml" where
  "wildcardPassThrough ap tk knownChildNames obj path node0 =
     fold (\<lambda>key node.
            if key = tk then node
            else if startsWith key ap then node
            else if toLowerCase key \<in> knownChildNames then node
            else (case ownProp obj key of
                    None \<Rightarrow> node
                  | Some wildcardValue \<Rightarrow>
                      if wildcardValue = JNull then node
                      else if Array_isArray wildcardValue then
                        fold (\<lambda>(i, item) node.
                               attach node
                                 (buildWildcardValue (node_ele key) item
                                    (path @ ''.'' @ key @ ''['' @ digits i @ '']'') ap tk))
                             (enumerate 0 (arrayItems wildcardValue)) node
                      else
                        attach node
                          (buildWildcardValue (node_ele key) wildcardValue
                             (path @ ''.'' @ key) ap tk)))
          (Object_keys obj) node0"

text \<open>
  A loop whose body may throw: the first error ends it, as the exception does.
\<close>

fun forEach :: "('a \<Rightarrow> 's \<Rightarrow> 'e + 's) \<Rightarrow> 'a list \<Rightarrow> 's \<Rightarrow> 'e + 's" where
  "forEach f [] s = Inr s"
| "forEach f (x # xs) s = (case f x s of Inl e \<Rightarrow> Inl e | Inr s' \<Rightarrow> forEach f xs s')"

lemma forEach_cong [fundef_cong]:
  "xs = ys \<Longrightarrow> s = t \<Longrightarrow> (\<And>x u. x \<in> set ys \<Longrightarrow> f x u = g x u)
     \<Longrightarrow> forEach f xs s = forEach g ys t"
proof (induction ys arbitrary: xs s t)
  case Nil
  then show ?case by simp
next
  case (Cons y ys)
  then show ?case by (auto split: sum.splits)
qed

definition unexpectedArray :: "elementDef \<Rightarrow> string" where
  "unexpectedArray el =
     ''Unexpected array passed to buildElement for '' @ dq @ el_name el @ dq
       @ ''. Arrays should be handled by the parent.''"

function buildElement ::
  "schemaModel \<Rightarrow> buildOptions \<Rightarrow> xml \<Rightarrow> elementDef \<Rightarrow> json \<Rightarrow> string
     \<Rightarrow> mappingError + xml" where
  "buildElement w options node el val path =
     (if Array_isArray val then Inl (XsdMappingError path (unexpectedArray el))
      else if val = JNull then Inr node
      else
        (case resolveComplexTypeForElement w el of
           None \<Rightarrow> Inr (node_txt node (jsString val))
         | Some ct \<Rightarrow>
             if \<not> typeofObject val then Inr (node_txt node (jsString val))
             else
               (let obj = asJsonObject val;
                    node1 = fold (applyAttribute obj (attributePrefix options))
                              (getAttributesForElement w el) node
                in if hasTextContent ct \<and> objGet obj (textNodeKey options) \<noteq> Undefined
                   then Inr (node_txt node1 (stringOf (objGet obj (textNodeKey options))))
                   else
                     (let resolvedChildren = getChildElementsForElement w el;
                          knownChildNames = lowerSet (map el_name resolvedChildren)
                      in case
                           forEach (\<lambda>childEl node.
                               (let childValue = lookupCI obj (el_name childEl)
                                in if childValue = None \<or> childValue = Some JNull then Inr node
                                   else if Array_isArray (the childValue) then
                                     forEach (\<lambda>(i, item) node.
                                         (case buildElement w options (node_ele (el_name childEl))
                                                 childEl item
                                                 (path @ ''.'' @ el_name childEl
                                                    @ ''['' @ digits i @ '']'') of
                                            Inl e \<Rightarrow> Inl e
                                          | Inr childNode \<Rightarrow> Inr (attach node childNode)))
                                       (enumerate 0 (arrayItems (the childValue))) node
                                   else
                                     (case buildElement w options (node_ele (el_name childEl))
                                             childEl (the childValue)
                                             (path @ ''.'' @ el_name childEl) of
                                        Inl e \<Rightarrow> Inl e
                                      | Inr childNode \<Rightarrow> Inr (attach node childNode))))
                             resolvedChildren node1
                         of
                           Inl e \<Rightarrow> Inl e
                         | Inr node2 \<Rightarrow>
                             Inr (if hasWildcardForElement w el
                                  then wildcardPassThrough (attributePrefix options)
                                         (textNodeKey options) knownChildNames obj path node2
                                  else node2)))))"
  by pat_completeness auto

termination buildElement
  apply (relation "measure (\<lambda>(w, options, node, el, val, path). size val)")
    apply simp
   apply (auto intro: size_item_of_lookupCI size_the_lookupCI)
  done

declare buildElement.simps [simp del]

definition rootNotFound :: "string \<Rightarrow> string" where
  "rootNotFound rootName = ''Root element '' @ dq @ rootName @ dq @ '' not found in schema.''"

text \<open>
  \<open>buildXml\<close> returns the text that the external serializer makes of the document; the
  model returns the document's root node, which is all the builder decides.
\<close>

definition buildXml ::
  "(string \<times> json) list \<Rightarrow> schemaModel \<Rightarrow> buildOptions \<Rightarrow> mappingError + xml" where
  "buildXml json w options =
     (let rootName = rootElement w
      in case lookupElement w rootName of
           None \<Rightarrow> Inl (XsdMappingError ''$'' (rootNotFound rootName))
         | Some rootEl \<Rightarrow>
             (let rootValue = (if lookupCI json rootName \<noteq> None
                               then the (lookupCI json rootName) else JObj json);
                  root = (if truthy (opt_targetNamespace options)
                          then Element rootName [(''xmlns'', the (opt_targetNamespace options))] []
                          else node_ele rootName)
              in buildElement w options root rootEl rootValue (''$.'' @ rootName)))"

section \<open>Strict-mode validator (validation/json-validator.ts)\<close>

record validationIssue =
  issue_path :: string
  issue_message :: string

datatype validationError = XsdValidationError (issues_of: "validationIssue list")

definition push :: "'a list \<Rightarrow> 'a \<Rightarrow> 'a list" where
  "push xs x = xs @ [x]"

definition msgNoMultiple :: "elementDef \<Rightarrow> string" where
  "msgNoMultiple el =
     ''Element '' @ dq @ el_name el @ dq
       @ '' does not allow multiple occurrences (maxOccurs=1), but an array was provided.''"

definition msgSimpleGotObject :: "elementDef \<Rightarrow> string" where
  "msgSimpleGotObject el =
     ''Element '' @ dq @ el_name el @ dq @ '' is a simple type but received an object.''"

definition msgRequiredNull :: "elementDef \<Rightarrow> string" where
  "msgRequiredNull el =
     ''Required element '' @ dq @ el_name el @ dq @ '' is null/undefined.''"

definition msgExpectsObject :: "elementDef \<Rightarrow> string" where
  "msgExpectsObject el =
     ''Element '' @ dq @ el_name el @ dq
       @ '' expects an object (complexType) but received a scalar/array.''"

definition msgAttrMissing :: "attributeDef \<Rightarrow> string" where
  "msgAttrMissing attrDef =
     ''Required attribute '' @ dq @ attr_name attrDef @ dq @ '' is missing.''"

definition msgChildMissing :: "elementDef \<Rightarrow> string" where
  "msgChildMissing childEl =
     ''Required element '' @ dq @ el_name childEl @ dq @ '' (minOccurs=''
       @ showInt (minOccurs childEl) @ '') is missing.''"

definition msgUnknownProperty :: "string \<Rightarrow> elementDef \<Rightarrow> string" where
  "msgUnknownProperty key el =
     ''Unknown property '' @ dq @ key @ dq @ '' not declared in schema for element ''
       @ dq @ el_name el @ dq @ ''.''"

text \<open>
  The value that \<open>validateElement\<close> is given is whatever a property read returned, so it
  ranges over \<open>jsval\<close>.  The tests and reads that the validator applies to it:
  \<open>Array.isArray\<close>, \<open>typeof value === 'object'\<close>, the items of an array, \<open>obj[key]\<close> and
  \<open>Object.keys(obj)\<close>.  The prototype owns its functions, none of them enumerable, and
  its own \<open>__proto__\<close> reads \<open>null\<close>.
\<close>

definition isArrayVal :: "jsval \<Rightarrow> bool" where
  "isArrayVal v = (case v of Value j \<Rightarrow> Array_isArray j | _ \<Rightarrow> False)"

definition typeofObjectVal :: "jsval \<Rightarrow> bool" where
  "typeofObjectVal v =
     (case v of Value j \<Rightarrow> typeofObject j | ObjectPrototype \<Rightarrow> True | _ \<Rightarrow> False)"

definition itemsOf :: "jsval \<Rightarrow> jsval list" where
  "itemsOf v = (case v of Value j \<Rightarrow> map Value (arrayItems j) | _ \<Rightarrow> [])"

definition getMember :: "jsval \<Rightarrow> string \<Rightarrow> jsval" where
  "getMember v key =
     (case v of
        Value j \<Rightarrow> objGet (asJsonObject j) key
      | ObjectPrototype \<Rightarrow> (if key = ''__proto__'' then Value JNull else inherited key)
      | _ \<Rightarrow> Undefined)"

definition keysOf :: "jsval \<Rightarrow> string list" where
  "keysOf v = (case v of Value j \<Rightarrow> Object_keys (asJsonObject j) | _ \<Rightarrow> [])"

text \<open>
  The three loops of \<open>validateElement\<close> over an object.  The loop over the required
  attributes and the loop over the keys do not recurse; the loop over the children
  does, and is written inside \<open>validateElement\<close>.
\<close>

definition checkRequiredAttributes ::
  "attributeDef list \<Rightarrow> jsval \<Rightarrow> string \<Rightarrow> string
     \<Rightarrow> validationIssue list \<Rightarrow> validationIssue list" where
  "checkRequiredAttributes attrDefs obj path ap issues0 =
     fold (\<lambda>attrDef issues.
            if attr_use attrDef = Required then
              (let key = ap @ attr_name attrDef
               in if getMember obj key = Undefined
                  then push issues \<lparr>issue_path = path @ ''.'' @ key,
                                     issue_message = msgAttrMissing attrDef\<rparr>
                  else issues)
            else issues)
          attrDefs issues0"

definition checkUnknownKeys ::
  "schemaModel \<Rightarrow> string \<Rightarrow> string \<Rightarrow> elementDef \<Rightarrow> jsval \<Rightarrow> string
     \<Rightarrow> validationIssue list \<Rightarrow> validationIssue list" where
  "checkUnknownKeys w ap tk el obj path issues0 =
     (let knownChildren = set (map el_name (getChildElementsForElement w el));
          knownAttrs = set (map (\<lambda>a. ap @ attr_name a) (getAttributesForElement w el));
          elementHasWildcard = hasWildcardForElement w el
      in fold (\<lambda>key issues.
                if key = tk then issues
                else if key \<in> knownChildren \<or> key \<in> knownAttrs then issues
                else if elementHasWildcard then issues
                else push issues \<lparr>issue_path = path @ ''.'' @ key,
                                   issue_message = msgUnknownProperty key el\<rparr>)
              (keysOf obj) issues0)"

fun valSize :: "jsval \<Rightarrow> nat" where
  "valSize Undefined = 0"
| "valSize (Builtin key) = 0"
| "valSize ObjectPrototype = 1"
| "valSize (Value j) = size j + 2"

function validateElement ::
  "schemaModel \<Rightarrow> string \<Rightarrow> string \<Rightarrow> elementDef \<Rightarrow> jsval \<Rightarrow> string
     \<Rightarrow> validationIssue list \<Rightarrow> validationIssue list" where
  "validateElement w ap tk el val path issues0 =
     (if isArrayVal val then
        (if \<not> isArray el
         then push issues0 \<lparr>issue_path = path, issue_message = msgNoMultiple el\<rparr>
         else fold (\<lambda>(i, item) issues.
                     validateElement w ap tk el item (path @ ''['' @ digits i @ '']'') issues)
                   (enumerate 0 (itemsOf val)) issues0)
      else
        (case resolveComplexTypeForElement w el of
           None \<Rightarrow>
             (if val \<noteq> Value JNull \<and> typeofObjectVal val
              then push issues0 \<lparr>issue_path = path, issue_message = msgSimpleGotObject el\<rparr>
              else issues0)
         | Some ct \<Rightarrow>
             if val = Value JNull \<or> val = Undefined then
               (if minOccurs el > 0
                then push issues0 \<lparr>issue_path = path, issue_message = msgRequiredNull el\<rparr>
                else issues0)
             else if \<not> typeofObjectVal val \<or> isArrayVal val then
               push issues0 \<lparr>issue_path = path, issue_message = msgExpectsObject el\<rparr>
             else
               (let obj = val;
                    issues1 = checkRequiredAttributes (getAttributesForElement w el) obj path ap
                                issues0;
                    resolvedChildren = getChildElementsForElement w el;
                    issues2 =
                      fold (\<lambda>childEl issues.
                             (let childValue = getMember obj (el_name childEl)
                              in if minOccurs childEl > 0
                                    \<and> (childValue = Undefined \<or> childValue = Value JNull)
                                 then push issues
                                        \<lparr>issue_path = path @ ''.'' @ el_name childEl,
                                         issue_message = msgChildMissing childEl\<rparr>
                                 else if childValue \<noteq> Undefined \<and> childValue \<noteq> Value JNull
                                 then validateElement w ap tk childEl childValue
                                        (path @ ''.'' @ el_name childEl) issues
                                 else issues))
                           resolvedChildren issues1
                in checkUnknownKeys w ap tk el obj path issues2)))"
  by pat_completeness auto

lemma valSize_item:
  "(i, x) \<in> set (enumerate n (itemsOf v)) \<Longrightarrow> valSize x < valSize v"
proof (cases v)
  case (Value j)
  assume "(i, x) \<in> set (enumerate n (itemsOf v))"
  then obtain y where "x = Value y" "y \<in> set (arrayItems j)"
    using Value by (auto simp: itemsOf_def in_set_enumerate_eq)
  then show ?thesis using Value size_arrayItems [of y j] by simp
qed (simp_all add: itemsOf_def)

lemma valSize_getMember:
  assumes "typeofObjectVal v" and "getMember v k \<noteq> Undefined" and "getMember v k \<noteq> Value JNull"
  shows "valSize (getMember v k) < valSize v"
proof (cases v)
  case (Value j)
  show ?thesis
  proof (cases "map_of (asJsonObject j) k")
    case None
    then show ?thesis using Value
      by (simp add: getMember_def objGet_def inherited_def)
  next
    case (Some c)
    then have "size c < size j" by (blast dest: map_of_SomeD size_asJsonObject)
    then show ?thesis using Value Some by (simp add: getMember_def objGet_def)
  qed
next
  case ObjectPrototype
  then show ?thesis using assms
    by (cases "k = ''__proto__''") (simp_all add: getMember_def inherited_def)
qed (use assms in \<open>simp_all add: typeofObjectVal_def\<close>)

termination validateElement
  apply (relation "measure (\<lambda>(w, ap, tk, el, val, path, issues0). valSize val)")
    apply simp
   apply (auto intro: valSize_item valSize_getMember)
  done

declare validateElement.simps [simp del]

text \<open>
  \<open>validateJson\<close> returns nothing; it throws one \<open>XsdValidationError\<close> holding the
  issues, or returns normally.
\<close>

definition validateJson ::
  "(string \<times> json) list \<Rightarrow> schemaModel \<Rightarrow> string \<Rightarrow> string \<Rightarrow> validationError + unit" where
  "validateJson json w ap tk =
     (let rootName = rootElement w
      in case lookupElement w rootName of
           None \<Rightarrow>
             Inl (XsdValidationError
                    (push [] \<lparr>issue_path = ''$'', issue_message = rootNotFound rootName\<rparr>))
         | Some rootEl \<Rightarrow>
             (let rootValue = (if objGet json rootName \<noteq> Undefined then json
                               else [(rootName, JObj json)]);
                  issues = validateElement w ap tk rootEl (objGet rootValue rootName)
                             (''$.'' @ rootName) []
              in if length issues > 0 then Inl (XsdValidationError issues) else Inr ()))"

section \<open>Schema parser: includes, imports and the visited set (xsd/parser.ts)\<close>

text \<open>
  Reading a file and tokenizing it are external.  A schema file is given here by what
  \<open>parseXsdInternal\<close> collects from its \<open>xs:schema\<close> node before it follows any
  reference: the target namespace, the \<open>xmlns:*\<close> prefix declarations in document
  order, the top-level elements, the complex and simple types with their \<open>name\<close>
  attribute (empty when there is none), and the \<open>schemaLocation\<close> (and \<open>namespace\<close>)
  attributes of its \<open>xs:include\<close> and \<open>xs:import\<close> nodes, empty when absent.
\<close>

record schemaDoc =
  doc_targetNamespace :: "string option"
  doc_xmlns :: "(string \<times> string) list"
  doc_elements :: "elementDef list"
  doc_complexTypes :: "complexTypeDef list"
  doc_simpleTypes :: "simpleTypeDef list"
  doc_includes :: "string list"
  doc_imports :: "(string \<times> string) list"

text \<open>
  The file system is a finite table from resolved paths to contents: \<open>Some doc\<close> for a
  file that parses to a schema, \<open>None\<close> for a file that can be read but holds no
  schema; a path outside the table cannot be read.  \<open>path.resolve\<close> and
  \<open>path.dirname\<close> are functions of the host.
\<close>

record fsEnv =
  files :: "(string \<times> schemaDoc option) list"
  resolve1 :: "string \<Rightarrow> string"
  resolve2 :: "string \<Rightarrow> string \<Rightarrow> string"
  dirname :: "string \<Rightarrow> string"

datatype parseError = XsdParseError string

type_synonym registries =
  "(string, elementDef) jsmap \<times> (string, complexTypeDef) jsmap \<times> (string, simpleTypeDef) jsmap"

definition emptyModel :: schemaModel where
  "emptyModel = \<lparr>rootElement = [], elements = [], complexTypes = [], simpleTypes = [],
                  targetNamespace = None\<rparr>"

text \<open>\<open>for (const [k, v] of source) if (!target.has(k)) target.set(k, v)\<close>\<close>

definition mergeAbsent :: "('k, 'v) jsmap \<Rightarrow> ('k, 'v) jsmap \<Rightarrow> ('k, 'v) jsmap" where
  "mergeAbsent source target =
     fold (\<lambda>(k, v) t. if \<not> Map_has t k then Map_set k v t else t) source target"

text \<open>
  The import loop registers every type under its bare name and then under
  \<open>prefix:name\<close> for each collected prefix, each time only if the key is free.
\<close>

definition mergeImported :: "string list \<Rightarrow> (string, 'v) jsmap \<Rightarrow> (string, 'v) jsmap \<Rightarrow> (string, 'v) jsmap" where
  "mergeImported prefixes source target =
     fold (\<lambda>(k, v) t.
            fold (\<lambda>pfx t'. (let pk = pfx @ '':'' @ k
                             in if \<not> Map_has t' pk then Map_set pk v t' else t'))
                 prefixes
                 (if \<not> Map_has t k then Map_set k v t else t))
          source target"

definition prefixMapOf :: "schemaDoc \<Rightarrow> (string, string) jsmap" where
  "prefixMapOf doc =
     fold (\<lambda>(prefix, uri) pm. if prefix \<noteq> ''xs'' then Map_set prefix uri pm else pm)
          (doc_xmlns doc) []"

definition collectElements :: "schemaDoc \<Rightarrow> (string, elementDef) jsmap" where
  "collectElements doc = fold (\<lambda>el m. Map_set (el_name el) el m) (doc_elements doc) []"

definition collectComplexTypes :: "schemaDoc \<Rightarrow> (string, complexTypeDef) jsmap" where
  "collectComplexTypes doc =
     fold (\<lambda>ct m. if ct_name ct = [] then m else Map_set (ct_name ct) ct m)
          (doc_complexTypes doc) []"

definition collectSimpleTypes :: "schemaDoc \<Rightarrow> (string, simpleTypeDef) jsmap" where
  "collectSimpleTypes doc =
     fold (\<lambda>st m. if st_name st = [] then m else Map_set (st_name st) st m)
          (doc_simpleTypes doc) []"

type_synonym parseResult = "(string set \<times> (parseError + schemaModel)) option"

text \<open>
  The two loops over the references of one file.  \<open>rec\<close> is the recursive parse; its
  first component is the \<open>visited\<close> set after the call, which the next iteration
  continues with, since the set is shared and mutated.  A call that throws is caught
  and skipped.  \<open>None\<close> means that the recursive parse did not return.
\<close>

definition processIncludes ::
  "(string \<Rightarrow> string option \<Rightarrow> string set \<Rightarrow> parseResult) \<Rightarrow> string \<Rightarrow> string list
     \<Rightarrow> string set \<times> registries \<Rightarrow> (string set \<times> registries) option" where
  "processIncludes rec schemaBaseDir rawIncludes st0 =
     fold (\<lambda>schemaLocation st.
            (case st of
               None \<Rightarrow> None
             | Some (visited, els, cts, sts) \<Rightarrow>
                 if schemaLocation = [] then st
                 else
                   (case rec schemaLocation (Some schemaBaseDir) visited of
                      None \<Rightarrow> None
                    | Some (visited', Inl err) \<Rightarrow> Some (visited', els, cts, sts)
                    | Some (visited', Inr includedModel) \<Rightarrow>
                        Some (visited',
                              mergeAbsent (elements includedModel) els,
                              mergeAbsent (complexTypes includedModel) cts,
                              mergeAbsent (simpleTypes includedModel) sts))))
          rawIncludes (Some st0)"

definition processImports ::
  "(string \<Rightarrow> string option \<Rightarrow> string set \<Rightarrow> parseResult) \<Rightarrow> string
     \<Rightarrow> (string, string) jsmap \<Rightarrow> (string \<times> string) list
     \<Rightarrow> string set \<times> registries \<Rightarrow> (string set \<times> registries) option" where
  "processImports rec schemaBaseDir prefixMap rawImports st0 =
     fold (\<lambda>(importNs, schemaLocation) st.
            (case st of
               None \<Rightarrow> None
             | Some (visited, els, cts, sts) \<Rightarrow>
                 if schemaLocation = [] then st
                 else
                   (case rec schemaLocation (Some schemaBaseDir) visited of
                      None \<Rightarrow> None
                    | Some (visited', Inl err) \<Rightarrow> Some (visited', els, cts, sts)
                    | Some (visited', Inr importedModel) \<Rightarrow>
                        (let prefixes = map fst (filter (\<lambda>(pfx, uri). uri = importNs) prefixMap)
                         in Some (visited',
                                  mergeAbsent (elements importedModel) els,
                                  mergeImported prefixes (complexTypes importedModel) cts,
                                  mergeImported prefixes (simpleTypes importedModel) sts)))))
          rawImports (Some st0)"

text \<open>
  \<open>parseXsdInternal\<close> calls itself once for every reference of every file it reads and
  nothing in its text bounds the depth, so the model carries fuel: the first argument
  bounds the depth of nested calls, and \<open>None\<close> is the verdict that the bound was hit.
\<close>

fun parseXsdInternal ::
  "nat \<Rightarrow> fsEnv \<Rightarrow> string \<Rightarrow> string option \<Rightarrow> string set \<Rightarrow> parseResult" where
  "parseXsdInternal 0 env xsdPath baseDir visited = None"
| "parseXsdInternal (Suc fuel) env xsdPath baseDir visited =
     (let resolvedPath = (if truthy baseDir then resolve2 env (the baseDir) xsdPath
                          else resolve1 env xsdPath)
      in if resolvedPath \<in> visited then Some (visited, Inr emptyModel)
         else
           (let visited1 = insert resolvedPath visited
            in case Map_get (files env) resolvedPath of
                 None \<Rightarrow>
                   Some (visited1, Inl (XsdParseError (''Cannot read XSD file: '' @ resolvedPath)))
               | Some None \<Rightarrow>
                   Some (visited1,
                         Inl (XsdParseError
                                (''Failed to parse XSD/WSDL content from: '' @ resolvedPath)))
               | Some (Some doc) \<Rightarrow>
                   (let rootElement0 = (case doc_elements doc of [] \<Rightarrow> [] | e # es \<Rightarrow> el_name e);
                        schemaBaseDir = dirname env resolvedPath
                    in case processIncludes (parseXsdInternal fuel env) schemaBaseDir
                              (doc_includes doc)
                              (visited1, collectElements doc, collectComplexTypes doc,
                               collectSimpleTypes doc) of
                         None \<Rightarrow> None
                       | Some st1 \<Rightarrow>
                           (case processImports (parseXsdInternal fuel env) schemaBaseDir
                                   (prefixMapOf doc) (doc_imports doc) st1 of
                              None \<Rightarrow> None
                            | Some (visited3, els, cts, sts) \<Rightarrow>
                                (let effectiveRoot =
                                       (if rootElement0 \<noteq> [] then rootElement0
                                        else case els of [] \<Rightarrow> [] | (k, v) # rest \<Rightarrow> k)
                                 in Some (visited3,
                                          Inr \<lparr>rootElement = effectiveRoot, elements = els,
                                               complexTypes = cts, simpleTypes = sts,
                                               targetNamespace = doc_targetNamespace doc\<rparr>))))))"

definition parseXsd :: "nat \<Rightarrow> fsEnv \<Rightarrow> string \<Rightarrow> string option \<Rightarrow> parseResult" where
  "parseXsd fuel env xsdPath baseDir = parseXsdInternal fuel env xsdPath baseDir {}"

section \<open>Notions used in the statements about the walker\<close>

text \<open>
  What the specification calls the built-in scalar XSD type names: the forty-four
  built-in datatypes of XML Schema, nineteen primitive and twenty-five derived, under
  the prefix \<open>xs:\<close>.  This list follows the specification, not the code; the code has
  the table \<open>XS_SIMPLE_TYPES\<close>.
\<close>

definition xsdBuiltinDatatypes :: "string list" where
  "xsdBuiltinDatatypes =
    [''xs:string'', ''xs:boolean'', ''xs:decimal'', ''xs:float'', ''xs:double'',
     ''xs:duration'', ''xs:dateTime'', ''xs:time'', ''xs:date'', ''xs:gYearMonth'',
     ''xs:gYear'', ''xs:gMonthDay'', ''xs:gDay'', ''xs:gMonth'', ''xs:hexBinary'',
     ''xs:base64Binary'', ''xs:anyURI'', ''xs:QName'', ''xs:NOTATION'',
     ''xs:normalizedString'', ''xs:token'', ''xs:language'', ''xs:NMTOKEN'', ''xs:NMTOKENS'',
     ''xs:Name'', ''xs:NCName'', ''xs:ID'', ''xs:IDREF'', ''xs:IDREFS'', ''xs:ENTITY'',
     ''xs:ENTITIES'', ''xs:integer'', ''xs:nonPositiveInteger'', ''xs:negativeInteger'',
     ''xs:long'', ''xs:int'', ''xs:short'', ''xs:byte'', ''xs:nonNegativeInteger'',
     ''xs:unsignedLong'', ''xs:unsignedInt'', ''xs:unsignedShort'', ''xs:unsignedByte'',
     ''xs:positiveInteger'']"

text \<open>The built-in datatypes that the table of the walker does not hold.\<close>

definition builtinsNotInTable :: "string list" where
  "builtinsNotInTable =
    [''xs:gYearMonth'', ''xs:gYear'', ''xs:gMonthDay'', ''xs:gDay'', ''xs:gMonth'',
     ''xs:NOTATION'', ''xs:language'', ''xs:NMTOKENS'', ''xs:NCName'', ''xs:IDREFS'',
     ''xs:ENTITY'', ''xs:ENTITIES'']"

section \<open>Notions used in the statements about the validator\<close>

text \<open>
  A key of a validated object is reported as unknown when it passes none of the three
  tests of the last loop of \<open>validateElement\<close>.
\<close>

definition unknownKey :: "schemaModel \<Rightarrow> string \<Rightarrow> string \<Rightarrow> elementDef \<Rightarrow> string \<Rightarrow> bool" where
  "unknownKey w ap tk el key =
     (key \<noteq> tk
      \<and> key \<notin> set (map el_name (getChildElementsForElement w el))
      \<and> key \<notin> set (map (\<lambda>a. ap @ attr_name a) (getAttributesForElement w el))
      \<and> \<not> hasWildcardForElement w el)"

text \<open>What the loop over the declared children adds for one child.\<close>

definition childIssues ::
  "schemaModel \<Rightarrow> string \<Rightarrow> string \<Rightarrow> jsval \<Rightarrow> string \<Rightarrow> elementDef
     \<Rightarrow> validationIssue list" where
  "childIssues w ap tk obj path childEl =
     (let childValue = getMember obj (el_name childEl)
      in if minOccurs childEl > 0 \<and> (childValue = Undefined \<or> childValue = Value JNull)
         then [\<lparr>issue_path = path @ ''.'' @ el_name childEl,
                 issue_message = msgChildMissing childEl\<rparr>]
         else if childValue \<noteq> Undefined \<and> childValue \<noteq> Value JNull
         then validateElement w ap tk childEl childValue (path @ ''.'' @ el_name childEl) []
         else [])"

text \<open>What the loop over the required attributes adds, and what the loop over the keys adds.\<close>

definition attributeIssues ::
  "schemaModel \<Rightarrow> string \<Rightarrow> elementDef \<Rightarrow> jsval \<Rightarrow> string \<Rightarrow> validationIssue list" where
  "attributeIssues w ap el obj path =
     map (\<lambda>a. \<lparr>issue_path = path @ ''.'' @ ap @ attr_name a, issue_message = msgAttrMissing a\<rparr>)
         (filter (\<lambda>a. attr_use a = Required \<and> getMember obj (ap @ attr_name a) = Undefined)
            (getAttributesForElement w el))"

definition unknownKeyIssues ::
  "schemaModel \<Rightarrow> string \<Rightarrow> string \<Rightarrow> elementDef \<Rightarrow> jsval \<Rightarrow> string \<Rightarrow> validationIssue list" where
  "unknownKeyIssues w ap tk el obj path =
     map (\<lambda>key. \<lparr>issue_path = path @ ''.'' @ key, issue_message = msgUnknownProperty key el\<rparr>)
         (filter (unknownKey w ap tk el) (keysOf obj))"

section \<open>Notions used in the statements about the builder\<close>

fun tagOf :: "xml \<Rightarrow> string option" where
  "tagOf (Element t as ks) = Some t"
| "tagOf (Text s) = None"

fun attachAll :: "xml \<Rightarrow> xml list \<Rightarrow> xml" where
  "attachAll (Element t as ks) cs = Element t as (ks @ cs)"
| "attachAll (Text s) cs = Text s"

text \<open>
  The results of a loop whose body yields nodes or throws, in order, up to the first
  error.
\<close>

fun collect :: "('a \<Rightarrow> 'e + 'b list) \<Rightarrow> 'a list \<Rightarrow> 'e + 'b list" where
  "collect f [] = Inr []"
| "collect f (x # xs) =
     (case f x of
        Inl e \<Rightarrow> Inl e
      | Inr ys \<Rightarrow> (case collect f xs of Inl e \<Rightarrow> Inl e | Inr zs \<Rightarrow> Inr (ys @ zs)))"

definition single :: "'e + 'b \<Rightarrow> 'e + 'b list" where
  "single r = (case r of Inl e \<Rightarrow> Inl e | Inr c \<Rightarrow> Inr [c])"

text \<open>
  The child nodes that the loop over the declared children of \<open>buildElement\<close> creates
  for one declared child: none for a value that is absent or \<open>null\<close>, one per item for
  an array, one otherwise; each is a fresh element named after the declaration and
  filled in by \<open>buildElement\<close>.
\<close>

definition emittedFor ::
  "schemaModel \<Rightarrow> buildOptions \<Rightarrow> (string \<times> json) list \<Rightarrow> string \<Rightarrow> elementDef
     \<Rightarrow> mappingError + xml list" where
  "emittedFor w options obj path childEl =
     (let childValue = lookupCI obj (el_name childEl)
      in if childValue = None \<or> childValue = Some JNull then Inr []
         else if Array_isArray (the childValue) then
           collect (\<lambda>(i, item).
                      single (buildElement w options (node_ele (el_name childEl)) childEl item
                                (path @ ''.'' @ el_name childEl @ ''['' @ digits i @ '']'')))
                   (enumerate 0 (arrayItems (the childValue)))
         else single (buildElement w options (node_ele (el_name childEl)) childEl
                        (the childValue) (path @ ''.'' @ el_name childEl)))"

text \<open>
  What the loop over the declared attributes writes for one attribute: the text of the
  value that \<open>lookupCI\<close> finds under the prefixed name, or the schema default when
  nothing or \<open>null\<close> is found, or nothing.
\<close>

definition attributeWritten ::
  "(string \<times> json) list \<Rightarrow> string \<Rightarrow> attributeDef \<Rightarrow> string option" where
  "attributeWritten obj ap a =
     (case lookupCI obj (ap @ attr_name a) of
        None \<Rightarrow> attr_default a
      | Some v \<Rightarrow> if v = JNull then attr_default a else Some (jsString v))"

text \<open>
  An array value is handed to \<open>buildElement\<close> itself: the value is an array, or the
  descent through the declared children of an object, item by item through their
  arrays, meets an item that is an array.
\<close>

function arrayReaches :: "schemaModel \<Rightarrow> buildOptions \<Rightarrow> elementDef \<Rightarrow> json \<Rightarrow> bool" where
  "arrayReaches w options el val =
     (if Array_isArray val then True
      else if val = JNull \<or> \<not> typeofObject val then False
      else
        (case resolveComplexTypeForElement w el of
           None \<Rightarrow> False
         | Some ct \<Rightarrow>
             if hasTextContent ct \<and> objGet (asJsonObject val) (textNodeKey options) \<noteq> Undefined
             then False
             else
               (\<exists>childEl \<in> set (getChildElementsForElement w el).
                  if lookupCI (asJsonObject val) (el_name childEl) = None
                     \<or> lookupCI (asJsonObject val) (el_name childEl) = Some JNull
                  then False
                  else if Array_isArray (the (lookupCI (asJsonObject val) (el_name childEl)))
                  then (\<exists>item \<in> set (arrayItems (the (lookupCI (asJsonObject val)
                                                            (el_name childEl)))).
                          arrayReaches w options childEl item)
                  else arrayReaches w options childEl
                         (the (lookupCI (asJsonObject val) (el_name childEl))))))"
  by pat_completeness auto

lemma size_item_of_lookupCI_plain:
  "lookupCI (asJsonObject v) k \<noteq> None
     \<Longrightarrow> x \<in> set (arrayItems (the (lookupCI (asJsonObject v) k)))
     \<Longrightarrow> size x < size v"
  using size_the_lookupCI size_arrayItems order_less_trans by blast

termination arrayReaches
  apply (relation "measure (\<lambda>(w, options, el, val). size val)")
    apply simp
   apply (auto intro: size_item_of_lookupCI_plain size_the_lookupCI)
  done

declare arrayReaches.simps [simp del]

section \<open>Notions used in the statements about the parser\<close>

text \<open>
  A registry \<open>t'\<close> keeps a registry \<open>t\<close>: every binding of \<open>t\<close> is a binding of \<open>t'\<close>, and
  \<open>t'\<close> binds every key once if \<open>t\<close> does.
\<close>

definition keeps :: "('k, 'v) jsmap \<Rightarrow> ('k, 'v) jsmap \<Rightarrow> bool" where
  "keeps t t' =
     ((distinct (map fst t) \<longrightarrow> distinct (map fst t'))
      \<and> (\<forall>k v. Map_get t k = Some v \<longrightarrow> Map_get t' k = Some v))"

definition keepsAll :: "registries \<Rightarrow> registries \<Rightarrow> bool" where
  "keepsAll r r' =
     (case r of (els, cts, sts) \<Rightarrow>
        case r' of (els', cts', sts') \<Rightarrow> keeps els els' \<and> keeps cts cts' \<and> keeps sts sts')"

text \<open>The path that \<open>parseXsdInternal\<close> resolves its arguments to.\<close>

definition resolvedPathOf :: "fsEnv \<Rightarrow> string \<Rightarrow> string option \<Rightarrow> string" where
  "resolvedPathOf env xsdPath baseDir =
     (if truthy baseDir then resolve2 env (the baseDir) xsdPath else resolve1 env xsdPath)"

text \<open>
  What the two loops leave registered from a model that a recursive call returned: each
  of its declarations is bound in the registries, the types also under \<open>prefix:name\<close>
  for each of the given prefixes.
\<close>

definition registeredFrom ::
  "string list \<Rightarrow> schemaModel \<Rightarrow> registries \<Rightarrow> bool" where
  "registeredFrom prefixes m' r =
     (case r of (els, cts, sts) \<Rightarrow>
        (\<forall>k x. (k, x) \<in> set (elements m') \<longrightarrow> Map_has els k)
        \<and> (\<forall>k x. (k, x) \<in> set (complexTypes m') \<longrightarrow>
              Map_has cts k \<and> (\<forall>pfx \<in> set prefixes. Map_has cts (pfx @ '':'' @ k)))
        \<and> (\<forall>k x. (k, x) \<in> set (simpleTypes m') \<longrightarrow>
              Map_has sts k \<and> (\<forall>pfx \<in> set prefixes. Map_has sts (pfx @ '':'' @ k))))"

section \<open>Example schemas and inputs\<close>

definition leaf :: "string \<Rightarrow> elementDef" where
  "leaf n = ElementDef n (Some ''xs:string'') None 1 (Bounded 1) [] [] None False"

definition typed :: "string \<Rightarrow> string \<Rightarrow> elementDef" where
  "typed n t = ElementDef n (Some t) None 1 (Bounded 1) [] [] None False"

text \<open>Two types that extend each other.\<close>

definition cycA :: complexTypeDef where
  "cycA = ComplexTypeDef ''A'' Sequence [leaf ''a''] [] False (Some ''B'') None"

definition cycB :: complexTypeDef where
  "cycB = ComplexTypeDef ''B'' Sequence [leaf ''b''] [] False (Some ''A'') None"

definition cyclicModel :: schemaModel where
  "cyclicModel =
     \<lparr>rootElement = ''x'',
      elements = [(''x'', typed ''x'' ''A''), (''y'', typed ''y'' ''B'')],
      complexTypes = [(''A'', cycA), (''B'', cycB)],
      simpleTypes = [],
      targetNamespace = None\<rparr>"

text \<open>A derived type over a base type, and a named simple type.\<close>

definition baseT :: complexTypeDef where
  "baseT = ComplexTypeDef ''Base'' Sequence [leaf ''id'', leaf ''name''] [] False None None"

definition derivedT :: complexTypeDef where
  "derivedT = ComplexTypeDef ''Derived'' Sequence [leaf ''extra''] [] False (Some ''Base'') None"

definition inheritModel :: schemaModel where
  "inheritModel =
     \<lparr>rootElement = ''d'',
      elements = [(''d'', typed ''d'' ''Derived''), (''b'', typed ''b'' ''Base'')],
      complexTypes = [(''Base'', baseT), (''Derived'', derivedT)],
      simpleTypes = [(''Code'', \<lparr>st_name = ''Code'', st_base = ''xs:string''\<rparr>)],
      targetNamespace = None\<rparr>"

text \<open>A person with a required attribute, a required child and an optional child.\<close>

definition idAttr :: attributeDef where
  "idAttr = \<lparr>attr_name = ''id'', attr_type = ''xs:string'', attr_use = Required,
             attr_default = None, attr_fixed = None\<rparr>"

definition ageEl :: elementDef where
  "ageEl = ElementDef ''age'' (Some ''xs:int'') None 0 (Bounded 1) [] [] None False"

definition personT :: complexTypeDef where
  "personT = ComplexTypeDef ''PersonType'' Sequence [leaf ''name'', ageEl] [idAttr] False None None"

definition personModel :: schemaModel where
  "personModel =
     \<lparr>rootElement = ''person'',
      elements = [(''person'', typed ''person'' ''PersonType'')],
      complexTypes = [(''PersonType'', personT)],
      simpleTypes = [],
      targetNamespace = None\<rparr>"

definition defaultOptions :: buildOptions where
  "defaultOptions =
     \<lparr>prettyPrint = False, xmlDeclaration = True, encoding = ''UTF-8'',
      attributePrefix = ''@'', textNodeKey = ''#text'', opt_targetNamespace = None\<rparr>"

definition personElement :: elementDef where
  "personElement = typed ''person'' ''PersonType''"

definition badPerson :: "(string \<times> json) list" where
  "badPerson = [(''name'', JNull), (''extra'', JNum ''1'')]"

definition nullIdPerson :: "(string \<times> json) list" where
  "nullIdPerson = [(''@id'', JNull), (''name'', JStr ''Ann'')]"

definition rootlessModel :: schemaModel where
  "rootlessModel = personModel\<lparr>rootElement := ''envelope''\<rparr>"

text \<open>A list whose declared child may repeat, and one whose declared child may not.\<close>

definition tagEl :: elementDef where
  "tagEl = ElementDef ''tag'' (Some ''xs:string'') None 0 Unbounded [] [] None True"

definition listT :: complexTypeDef where
  "listT = ComplexTypeDef ''ListType'' Sequence [tagEl] [] False None None"

definition listElement :: elementDef where
  "listElement = typed ''list'' ''ListType''"

definition listModel :: schemaModel where
  "listModel =
     \<lparr>rootElement = ''list'',
      elements = [(''list'', listElement)],
      complexTypes = [(''ListType'', listT)],
      simpleTypes = [],
      targetNamespace = None\<rparr>"

text \<open>An element whose type is a choice of three branches, under a wrapper.\<close>

definition choiceT :: complexTypeDef where
  "choiceT = ComplexTypeDef ''IdentType'' Choice [leaf ''A'', leaf ''B'', leaf ''C''] [] False
               None None"

definition identElement :: elementDef where
  "identElement = typed ''ident'' ''IdentType''"

definition wrapperT :: complexTypeDef where
  "wrapperT = ComplexTypeDef ''WrapperType'' Sequence [identElement, leaf ''code''] [] False
                None None"

definition wrapperElement :: elementDef where
  "wrapperElement = typed ''wrapper'' ''WrapperType''"

definition choiceModel :: schemaModel where
  "choiceModel =
     \<lparr>rootElement = ''ident'',
      elements = [(''ident'', identElement), (''wrapper'', wrapperElement)],
      complexTypes = [(''IdentType'', choiceT), (''WrapperType'', wrapperT)],
      simpleTypes = [],
      targetNamespace = None\<rparr>"

definition tagsInput :: "(string \<times> json) list" where
  "tagsInput = [(''tag'', JArr [JStr ''a'', JNull, JStr ''b''])]"

definition choiceC :: "(string \<times> json) list" where
  "choiceC = [(''A'', JNull), (''B'', JNull), (''C'', JStr ''x'')]"

definition choiceNone :: "(string \<times> json) list" where
  "choiceNone = [(''A'', JNull), (''B'', JNull), (''C'', JNull)]"

definition wrapperInput :: "(string \<times> json) list" where
  "wrapperInput = [(''ident'', JNull), (''code'', JStr ''7'')]"

text \<open>A provider identified by the child \<open>CNPJ\<close>, given in two casings.\<close>

definition prestadorT :: complexTypeDef where
  "prestadorT = ComplexTypeDef ''PrestadorType'' Sequence [leaf ''CNPJ''] [] False None None"

definition prestadorElement :: elementDef where
  "prestadorElement = typed ''prestador'' ''PrestadorType''"

definition cnpjModel :: schemaModel where
  "cnpjModel =
     \<lparr>rootElement = ''prestador'',
      elements = [(''prestador'', prestadorElement)],
      complexTypes = [(''PrestadorType'', prestadorT)],
      simpleTypes = [],
      targetNamespace = None\<rparr>"

definition upperInput :: "(string \<times> json) list" where
  "upperInput = [(''CNPJ'', JStr ''1'')]"

definition lowerInput :: "(string \<times> json) list" where
  "lowerInput = [(''cnpj'', JStr ''1'')]"

definition cnpjTwice :: "(string \<times> json) list" where
  "cnpjTwice = [(''CNPJ'', JArr [JStr ''1'', JStr ''2''])]"

definition nestedTags :: "(string \<times> json) list" where
  "nestedTags = [(''tag'', JArr [JStr ''a'', JArr [JStr ''b'']])]"

text \<open>
  Two schema files that import each other, after the fixtures
  \<open>person-with-import.xsd\<close> and \<open>contact-types.xsd\<close>.  The person file declares an
  \<open>AddressType\<close> of its own, and the prefix \<open>ct\<close> for the namespace of the contact file.
\<close>

definition addressT :: complexTypeDef where
  "addressT = ComplexTypeDef ''AddressType'' Sequence [leaf ''street''] [] False None None"

definition localAddressT :: complexTypeDef where
  "localAddressT = ComplexTypeDef ''AddressType'' Sequence [leaf ''line''] [] False None None"

definition personTypeT :: complexTypeDef where
  "personTypeT =
     ComplexTypeDef ''PersonType'' Sequence [typed ''address'' ''ct:AddressType''] [] False None None"

definition phoneST :: simpleTypeDef where
  "phoneST = \<lparr>st_name = ''PhoneType'', st_base = ''xs:string''\<rparr>"

definition contactDoc :: schemaDoc where
  "contactDoc =
     \<lparr>doc_targetNamespace = Some ''urn:contact'',
      doc_xmlns = [(''xs'', ''http://www.w3.org/2001/XMLSchema''), (''p'', ''urn:person'')],
      doc_elements = [],
      doc_complexTypes = [addressT],
      doc_simpleTypes = [phoneST],
      doc_includes = [],
      doc_imports = [(''urn:person'', ''person.xsd'')]\<rparr>"

definition personDoc :: schemaDoc where
  "personDoc =
     \<lparr>doc_targetNamespace = Some ''urn:person'',
      doc_xmlns = [(''xs'', ''http://www.w3.org/2001/XMLSchema''), (''ct'', ''urn:contact'')],
      doc_elements = [typed ''person'' ''PersonType''],
      doc_complexTypes = [personTypeT, localAddressT],
      doc_simpleTypes = [],
      doc_includes = [],
      doc_imports = [(''urn:contact'', ''contact.xsd'')]\<rparr>"

definition pairEnv :: fsEnv where
  "pairEnv =
     \<lparr>files = [(''/s/person.xsd'', Some personDoc), (''/s/contact.xsd'', Some contactDoc)],
      resolve1 = (\<lambda>p. p),
      resolve2 = (\<lambda>b p. b @ ''/'' @ p),
      dirname = (\<lambda>p. rev (tl (dropWhile (\<lambda>c. c \<noteq> CHR ''/'') (rev p))))\<rparr>"

definition pairModel :: schemaModel where
  "pairModel =
     \<lparr>rootElement = ''person'',
      elements = [(''person'', typed ''person'' ''PersonType'')],
      complexTypes = [(''PersonType'', personTypeT), (''AddressType'', localAddressT),
                      (''ct:AddressType'', addressT)],
      simpleTypes = [(''PhoneType'', phoneST), (''ct:PhoneType'', phoneST)],
      targetNamespace = Some ''urn:person''\<rparr>"

definition contactModel :: schemaModel where
  "contactModel =
     \<lparr>rootElement = [],
      elements = [],
      complexTypes = [(''AddressType'', addressT)],
      simpleTypes = [(''PhoneType'', phoneST)],
      targetNamespace = Some ''urn:contact''\<rparr>"

text \<open>A list with two items that a simple type does not allow, around one that it does.\<close>

definition mixedTags :: "(string \<times> json) list" where
  "mixedTags = [(''tag'', JArr [JObj [(''x'', JNum ''1'')], JStr ''ok'', JObj [(''y'', JNum ''2'')]])]"

text \<open>
  An envelope with an attribute, a declared child and a wildcard, and an input that
  spells the attribute and the child in another case and adds a key of its own.
\<close>

definition envelopeT :: complexTypeDef where
  "envelopeT =
     ComplexTypeDef ''EnvelopeType'' Sequence [leaf ''Header''] [idAttr] False None (Some True)"

definition envelopeElement :: elementDef where
  "envelopeElement = typed ''envelope'' ''EnvelopeType''"

definition envelopeModel :: schemaModel where
  "envelopeModel =
     \<lparr>rootElement = ''envelope'',
      elements = [(''envelope'', envelopeElement)],
      complexTypes = [(''EnvelopeType'', envelopeT)],
      simpleTypes = [],
      targetNamespace = None\<rparr>"

definition envelopeInput :: "(string \<times> json) list" where
  "envelopeInput = [(''@ID'', JStr ''7''), (''header'', JStr ''h''), (''Extra'', JStr ''x'')]"

section \<open>Walker: inheritance of child elements\<close>

lemma visitedAfter_mono: "visited \<subseteq> visitedAfter m ct visited"
proof (induction m ct visited rule: visitedAfter.induct)
  case (1 m ct visited)
  show ?case
  proof (cases "ct_name ct \<notin> visited \<and> truthy (extends ct)")
    case False
    then show ?thesis
      by (subst visitedAfter.simps) (auto split: option.splits)
  next
    case True
    show ?thesis
    proof (cases "Map_get (complexTypes m) (the (extends ct))")
      case None
      then show ?thesis using True by (subst visitedAfter.simps) auto
    next
      case (Some baseCt)
      have "insert (ct_name ct) visited \<subseteq> visitedAfter m baseCt (insert (ct_name ct) visited)"
        using "1.IH" True Some by simp
      then show ?thesis using True Some by (subst visitedAfter.simps) auto
    qed
  qed
qed

lemma resolve_insert_unvisited:
  "x \<notin> visitedAfter m ct visited \<Longrightarrow>
     resolveAllElements m ct (insert x visited) = resolveAllElements m ct visited
     \<and> visitedAfter m ct (insert x visited) = insert x (visitedAfter m ct visited)"
proof (induction m ct visited rule: visitedAfter.induct)
  case (1 m ct visited)
  have xv: "x \<notin> visited" using "1.prems" visitedAfter_mono by blast
  show ?case
  proof (cases "ct_name ct \<in> visited")
    case True
    then show ?thesis
      by (simp add: resolveAllElements.simps [of m ct] visitedAfter.simps [of m ct])
  next
    case nv: False
    have xn: "x \<noteq> ct_name ct"
      using "1.prems" nv visitedAfter_mono [of "insert (ct_name ct) visited" m]
      by (subst (asm) visitedAfter.simps) (auto split: if_splits option.splits)
    show ?thesis
    proof (cases "truthy (extends ct)")
      case False
      then show ?thesis using nv xn
        by (simp add: resolveAllElements.simps [of m ct] visitedAfter.simps [of m ct]
              insert_commute)
    next
      case tr: True
      show ?thesis
      proof (cases "Map_get (complexTypes m) (the (extends ct))")
        case None
        then show ?thesis using nv xn tr
          by (simp add: resolveAllElements.simps [of m ct] visitedAfter.simps [of m ct]
                insert_commute)
      next
        case (Some baseCt)
        have "x \<notin> visitedAfter m baseCt (insert (ct_name ct) visited)"
          using "1.prems" nv tr Some by (subst (asm) visitedAfter.simps) simp
        then have "resolveAllElements m baseCt (insert x (insert (ct_name ct) visited))
                     = resolveAllElements m baseCt (insert (ct_name ct) visited)
                 \<and> visitedAfter m baseCt (insert x (insert (ct_name ct) visited))
                     = insert x (visitedAfter m baseCt (insert (ct_name ct) visited))"
          using "1.IH" nv tr Some by simp
        then show ?thesis using nv xn tr Some
          by (simp add: resolveAllElements.simps [of m ct] visitedAfter.simps [of m ct]
                insert_commute)
      qed
    qed
  qed
qed

text \<open>
  Claim C2, as the code has it.  For a complex type \<open>T\<close> whose \<open>extends\<close> names a
  registered base type \<open>B\<close>, and whose own name is not among the type names visited
  while \<open>B\<close> is resolved (the chain from \<open>B\<close> does not lead back to a type named like
  \<open>T\<close>), the children of an element of type \<open>T\<close> are the children of an element of
  type \<open>B\<close> followed by \<open>T\<close>'s own elements, in that order.  The recursion returns a
  type's own elements when the type's name was visited, when it has no base, and when
  the base name is not registered.
\<close>

theorem resolveChildren_base_then_derived:
  assumes "resolveComplexTypeForElement m elT = Some T"
      and "resolveComplexTypeForElement m elB = Some B"
      and "truthy (extends T)"
      and "Map_get (complexTypes m) (the (extends T)) = Some B"
      and "ct_name T \<notin> visitedAfter m B {}"
  shows "getChildElementsForElement m elT = getChildElementsForElement m elB @ ct_elements T
       \<and> (\<forall>ct V. ct_name ct \<in> V \<or> \<not> truthy (extends ct)
                  \<or> Map_get (complexTypes m) (the (extends ct)) = None
              \<longrightarrow> resolveAllElements m ct V = ct_elements ct)"
proof -
  have "resolveAllElements m T {} = resolveAllElements m B {ct_name T} @ ct_elements T"
    using assms(3,4) by (simp add: resolveAllElements.simps [of m T])
  moreover have "resolveAllElements m B {ct_name T} = resolveAllElements m B {}"
    using resolve_insert_unvisited [OF assms(5)] by simp
  ultimately have "getChildElementsForElement m elT
                     = getChildElementsForElement m elB @ ct_elements T"
    using assms(1,2) by (simp add: getChildElementsForElement_def)
  moreover have "\<forall>ct V. ct_name ct \<in> V \<or> \<not> truthy (extends ct)
                  \<or> Map_get (complexTypes m) (the (extends ct)) = None
              \<longrightarrow> resolveAllElements m ct V = ct_elements ct"
    by (auto simp: resolveAllElements.simps)
  ultimately show ?thesis by blast
qed

theorem resolveChildren_base_then_derived_witness:
  "resolveComplexTypeForElement inheritModel (typed ''d'' ''Derived'') = Some derivedT
   \<and> resolveComplexTypeForElement inheritModel (typed ''b'' ''Base'') = Some baseT
   \<and> truthy (extends derivedT)
   \<and> Map_get (complexTypes inheritModel) (the (extends derivedT)) = Some baseT
   \<and> ct_name derivedT \<notin> visitedAfter inheritModel baseT {}
   \<and> getChildElementsForElement inheritModel (typed ''d'' ''Derived'')
       = [leaf ''id'', leaf ''name'', leaf ''extra'']
   \<and> getChildElementsForElement inheritModel (typed ''d'' ''Derived'')
       = getChildElementsForElement inheritModel (typed ''b'' ''Base'') @ ct_elements derivedT"
proof -
  have h1: "resolveComplexTypeForElement inheritModel (typed ''d'' ''Derived'') = Some derivedT"
    by (simp add: resolveComplexTypeForElement_def typed_def truthy_def Map_get_def
          inheritModel_def)
  have h2: "resolveComplexTypeForElement inheritModel (typed ''b'' ''Base'') = Some baseT"
    by (simp add: resolveComplexTypeForElement_def typed_def truthy_def Map_get_def
          inheritModel_def)
  have h3: "truthy (extends derivedT)"
    by (simp add: truthy_def derivedT_def)
  have h4: "Map_get (complexTypes inheritModel) (the (extends derivedT)) = Some baseT"
    by (simp add: Map_get_def inheritModel_def derivedT_def)
  have nb: "ct_name baseT = ''Base''" and eb: "extends baseT = None"
    and lb: "ct_elements baseT = [leaf ''id'', leaf ''name'']"
    by (simp_all add: baseT_def)
  have "visitedAfter inheritModel baseT {} = {''Base''}"
    by (simp add: visitedAfter.simps [of inheritModel baseT] nb eb truthy_def)
  then have h5: "ct_name derivedT \<notin> visitedAfter inheritModel baseT {}"
    by (simp add: derivedT_def)
  have h6: "getChildElementsForElement inheritModel (typed ''b'' ''Base'')
              = [leaf ''id'', leaf ''name'']"
    using h2 by (simp add: getChildElementsForElement_def
                   resolveAllElements.simps [of inheritModel baseT] nb eb lb truthy_def)
  from resolveChildren_base_then_derived [OF h1 h2 h3 h4 h5]
  have "getChildElementsForElement inheritModel (typed ''d'' ''Derived'')
          = getChildElementsForElement inheritModel (typed ''b'' ''Base'') @ ct_elements derivedT"
    by blast
  then show ?thesis using h1 h2 h3 h4 h5 h6 by (simp add: derivedT_def)
qed

theorem resolveChildren_cycle_counterexample:
  "truthy (extends cycA)
   \<and> Map_get (complexTypes cyclicModel) (the (extends cycA)) = Some cycB
   \<and> resolveComplexTypeForElement cyclicModel (typed ''x'' ''A'') = Some cycA
   \<and> resolveComplexTypeForElement cyclicModel (typed ''y'' ''B'') = Some cycB
   \<and> getChildElementsForElement cyclicModel (typed ''x'' ''A'')
       = [leaf ''a'', leaf ''b'', leaf ''a'']
   \<and> getChildElementsForElement cyclicModel (typed ''y'' ''B'') @ ct_elements cycA
       = [leaf ''b'', leaf ''a'', leaf ''b'', leaf ''a'']"
proof -
  have a: "resolveComplexTypeForElement cyclicModel (typed ''x'' ''A'') = Some cycA"
    by (simp add: resolveComplexTypeForElement_def typed_def truthy_def Map_get_def
          cyclicModel_def)
  have b: "resolveComplexTypeForElement cyclicModel (typed ''y'' ''B'') = Some cycB"
    by (simp add: resolveComplexTypeForElement_def typed_def truthy_def Map_get_def
          cyclicModel_def)
  have nA: "ct_name cycA = ''A''" and nB: "ct_name cycB = ''B''"
    and eA: "extends cycA = Some ''B''" and eB: "extends cycB = Some ''A''"
    and elA: "ct_elements cycA = [leaf ''a'']" and elB: "ct_elements cycB = [leaf ''b'']"
    by (simp_all add: cycA_def cycB_def)
  have gA: "Map_get (complexTypes cyclicModel) ''A'' = Some cycA"
    and gB: "Map_get (complexTypes cyclicModel) ''B'' = Some cycB"
    by (simp_all add: Map_get_def cyclicModel_def)
  have rA: "resolveAllElements cyclicModel cycA {} = [leaf ''a'', leaf ''b'', leaf ''a'']"
    by (simp add: resolveAllElements.simps [of cyclicModel cycA]
          resolveAllElements.simps [of cyclicModel cycB] nA nB eA eB elA elB gA gB truthy_def)
  have rB: "resolveAllElements cyclicModel cycB {} = [leaf ''b'', leaf ''a'', leaf ''b'']"
    by (simp add: resolveAllElements.simps [of cyclicModel cycA]
          resolveAllElements.simps [of cyclicModel cycB] nA nB eA eB elA elB gA gB truthy_def)
  show ?thesis
    using a b rA rB by (simp add: getChildElementsForElement_def eA elA gB truthy_def)
qed

section \<open>Walker: simple types\<close>

lemma table_of_builtins:
  "\<forall>n \<in> set xsdBuiltinDatatypes. n \<noteq> [] \<and> (n \<in> set XS_SIMPLE_TYPES \<longleftrightarrow> n \<notin> set builtinsNotInTable)"
  by (simp add: xsdBuiltinDatatypes_def builtinsNotInTable_def XS_SIMPLE_TYPES_def)

lemma table_within_builtins:
  "\<forall>n \<in> set XS_SIMPLE_TYPES. n \<in> set xsdBuiltinDatatypes \<or> n = ''xs:anyType''"
  by (simp add: xsdBuiltinDatatypes_def XS_SIMPLE_TYPES_def)

text \<open>
  Claim C8, as the code has it.  \<open>isSimpleType\<close> is true exactly when the name is absent
  or empty, or is one of the thirty-three names of the table \<open>XS_SIMPLE_TYPES\<close>, or is a
  key of the simple types of the model; for every other name, an unrecognized one
  included, it is false.  The table is not the set of the built-in scalar type names:
  it is the forty-four built-in datatypes less twelve (\<open>xs:gYearMonth\<close>, \<open>xs:gYear\<close>,
  \<open>xs:gMonthDay\<close>, \<open>xs:gDay\<close>, \<open>xs:gMonth\<close>, \<open>xs:NOTATION\<close>, \<open>xs:language\<close>,
  \<open>xs:NMTOKENS\<close>, \<open>xs:NCName\<close>, \<open>xs:IDREFS\<close>, \<open>xs:ENTITY\<close>, \<open>xs:ENTITIES\<close>), and
  \<open>xs:anyType\<close>; each of the twelve is simple only when the model registers it.  The
  complex types and the elements of the model play no part.
\<close>

theorem isSimpleType_iff:
  "(isSimpleType m tn \<longleftrightarrow>
      (tn = None \<or> tn = Some []
       \<or> (\<exists>n. tn = Some n
              \<and> (n \<in> {''xs:string'', ''xs:integer'', ''xs:int'', ''xs:long'', ''xs:short'',
                       ''xs:decimal'', ''xs:float'', ''xs:double'', ''xs:boolean'', ''xs:date'',
                       ''xs:time'', ''xs:dateTime'', ''xs:duration'', ''xs:anyURI'',
                       ''xs:base64Binary'', ''xs:hexBinary'', ''xs:token'',
                       ''xs:normalizedString'', ''xs:positiveInteger'',
                       ''xs:nonNegativeInteger'', ''xs:negativeInteger'',
                       ''xs:nonPositiveInteger'', ''xs:unsignedInt'', ''xs:unsignedLong'',
                       ''xs:unsignedShort'', ''xs:byte'', ''xs:unsignedByte'', ''xs:ID'',
                       ''xs:IDREF'', ''xs:NMTOKEN'', ''xs:Name'', ''xs:QName'', ''xs:anyType''}
                  \<or> n \<in> fst ` set (simpleTypes m)))))
   \<and> (\<forall>n. n \<in> set xsdBuiltinDatatypes \<longrightarrow>
          (isSimpleType m (Some n) \<longleftrightarrow>
             n \<notin> set builtinsNotInTable \<or> n \<in> fst ` set (simpleTypes m)))
   \<and> (\<forall>n. n \<in> set XS_SIMPLE_TYPES \<longrightarrow> n \<in> set xsdBuiltinDatatypes \<or> n = ''xs:anyType'')
   \<and> isSimpleType m (Some ''xs:anyType'')
   \<and> (\<forall>n. n \<noteq> [] \<and> n \<notin> set XS_SIMPLE_TYPES \<and> n \<notin> fst ` set (simpleTypes m) \<longrightarrow>
          \<not> isSimpleType m (Some n))
   \<and> isSimpleType (m\<lparr>elements := els, complexTypes := cts\<rparr>) tn = isSimpleType m tn"
proof (intro conjI allI impI)
  show "isSimpleType m tn \<longleftrightarrow>
      (tn = None \<or> tn = Some []
       \<or> (\<exists>n. tn = Some n
              \<and> (n \<in> {''xs:string'', ''xs:integer'', ''xs:int'', ''xs:long'', ''xs:short'',
                       ''xs:decimal'', ''xs:float'', ''xs:double'', ''xs:boolean'', ''xs:date'',
                       ''xs:time'', ''xs:dateTime'', ''xs:duration'', ''xs:anyURI'',
                       ''xs:base64Binary'', ''xs:hexBinary'', ''xs:token'',
                       ''xs:normalizedString'', ''xs:positiveInteger'',
                       ''xs:nonNegativeInteger'', ''xs:negativeInteger'',
                       ''xs:nonPositiveInteger'', ''xs:unsignedInt'', ''xs:unsignedLong'',
                       ''xs:unsignedShort'', ''xs:byte'', ''xs:unsignedByte'', ''xs:ID'',
                       ''xs:IDREF'', ''xs:NMTOKEN'', ''xs:Name'', ''xs:QName'', ''xs:anyType''}
                  \<or> n \<in> fst ` set (simpleTypes m))))"
  proof (cases tn)
    case None
    then show ?thesis by (simp add: isSimpleType_def truthy_def)
  next
    case (Some n)
    have "isSimpleType m (Some n) \<longleftrightarrow>
            n = [] \<or> n \<in> set XS_SIMPLE_TYPES \<or> n \<in> fst ` set (simpleTypes m)"
      by (simp add: isSimpleType_def truthy_def Map_has_def)
    then show ?thesis using Some by (simp add: XS_SIMPLE_TYPES_def)
  qed
next
  fix n
  assume n: "n \<in> set xsdBuiltinDatatypes"
  then have ne: "n \<noteq> []"
    and "n \<in> set XS_SIMPLE_TYPES \<longleftrightarrow> n \<notin> set builtinsNotInTable"
    using table_of_builtins by blast+
  then show "isSimpleType m (Some n) \<longleftrightarrow>
               n \<notin> set builtinsNotInTable \<or> n \<in> fst ` set (simpleTypes m)"
    by (simp add: isSimpleType_def truthy_def Map_has_def)
next
  fix n
  assume "n \<in> set XS_SIMPLE_TYPES"
  then show "n \<in> set xsdBuiltinDatatypes \<or> n = ''xs:anyType''"
    using table_within_builtins by blast
next
  show "isSimpleType m (Some ''xs:anyType'')"
    by (simp add: isSimpleType_def truthy_def XS_SIMPLE_TYPES_def)
next
  fix n
  assume "n \<noteq> [] \<and> n \<notin> set XS_SIMPLE_TYPES \<and> n \<notin> fst ` set (simpleTypes m)"
  then show "\<not> isSimpleType m (Some n)"
    by (simp add: isSimpleType_def truthy_def Map_has_def)
next
  show "isSimpleType (m\<lparr>elements := els, complexTypes := cts\<rparr>) tn = isSimpleType m tn"
    by (simp add: isSimpleType_def)
qed

theorem isSimpleType_iff_witness:
  "''xs:gYear'' \<in> set xsdBuiltinDatatypes
   \<and> isSimpleType inheritModel (Some ''xs:gYear'') = False
   \<and> ''xs:string'' \<in> set xsdBuiltinDatatypes
   \<and> isSimpleType inheritModel (Some ''xs:string'') = True
   \<and> ''Derived'' \<noteq> [] \<and> ''Derived'' \<notin> set XS_SIMPLE_TYPES
   \<and> ''Derived'' \<notin> fst ` set (simpleTypes inheritModel)
   \<and> isSimpleType inheritModel (Some ''Derived'') = False
   \<and> isSimpleType inheritModel (Some ''Code'') = True
   \<and> isSimpleType inheritModel None = True"
proof -
  note thm1 = isSimpleType_iff [of inheritModel _ "[]" "[]"]
  have st: "fst ` set (simpleTypes inheritModel) = {''Code''}"
    by (simp add: inheritModel_def)
  have b1: "''xs:gYear'' \<in> set xsdBuiltinDatatypes" "''xs:string'' \<in> set xsdBuiltinDatatypes"
    by (simp_all add: xsdBuiltinDatatypes_def)
  have g: "isSimpleType inheritModel (Some ''xs:gYear'') = False"
    using thm1 [of None, THEN conjunct2, THEN conjunct1, rule_format, OF b1(1)]
    by (simp add: st builtinsNotInTable_def)
  have s: "isSimpleType inheritModel (Some ''xs:string'') = True"
    using thm1 [of None, THEN conjunct2, THEN conjunct1, rule_format, OF b1(2)]
    by (simp add: st builtinsNotInTable_def)
  have d0: "''Derived'' \<noteq> [] \<and> ''Derived'' \<notin> set XS_SIMPLE_TYPES
            \<and> ''Derived'' \<notin> fst ` set (simpleTypes inheritModel)"
    by (simp add: st XS_SIMPLE_TYPES_def)
  have d: "isSimpleType inheritModel (Some ''Derived'') = False"
    using thm1 [of None, THEN conjunct2, THEN conjunct2, THEN conjunct2, THEN conjunct2,
            THEN conjunct1, rule_format, OF d0]
    by simp
  have c: "isSimpleType inheritModel (Some ''Code'') = True"
    using thm1 [of "Some ''Code''", THEN conjunct1] by (simp add: st)
  have n: "isSimpleType inheritModel None = True"
    using thm1 [of None, THEN conjunct1] by simp
  show ?thesis using b1 g s d0 d c n by simp
qed

theorem isSimpleType_unrecognized_counterexample:
  "''PersonType'' \<notin> set XS_SIMPLE_TYPES
   \<and> \<not> Map_has (simpleTypes inheritModel) ''PersonType''
   \<and> \<not> Map_has (complexTypes inheritModel) ''PersonType''
   \<and> isSimpleType inheritModel (Some ''PersonType'') = False
   \<and> ''xs:gYear'' \<in> set xsdBuiltinDatatypes
   \<and> isSimpleType inheritModel (Some ''xs:gYear'') = False"
  by (simp add: isSimpleType_def truthy_def Map_has_def XS_SIMPLE_TYPES_def inheritModel_def
        xsdBuiltinDatatypes_def)

section \<open>Validator: aggregation of issues\<close>

lemma fold_append_concat:
  "(\<And>x acc. x \<in> set xs \<Longrightarrow> f x acc = acc @ g x) \<Longrightarrow> fold f xs acc = acc @ concat (map g xs)"
  by (induction xs arbitrary: acc) simp_all

lemma checkRequiredAttributes_eq:
  "checkRequiredAttributes (getAttributesForElement w el) obj path ap issues0 =
     issues0 @ attributeIssues w ap el obj path"
proof -
  have "checkRequiredAttributes attrDefs obj path ap issues0 =
     issues0 @ map (\<lambda>a. \<lparr>issue_path = path @ ''.'' @ ap @ attr_name a,
                         issue_message = msgAttrMissing a\<rparr>)
                 (filter (\<lambda>a. attr_use a = Required \<and> getMember obj (ap @ attr_name a) = Undefined)
                    attrDefs)" for attrDefs
    unfolding checkRequiredAttributes_def
    by (induction attrDefs arbitrary: issues0) (simp_all add: push_def Let_def)
  then show ?thesis by (simp add: attributeIssues_def)
qed

lemma checkUnknownKeys_eq:
  "checkUnknownKeys w ap tk el obj path issues0 =
     issues0 @ unknownKeyIssues w ap tk el obj path"
proof -
  have "fold (\<lambda>key issues.
                if key = tk then issues
                else if key \<in> set (map el_name (getChildElementsForElement w el))
                        \<or> key \<in> set (map (\<lambda>a. ap @ attr_name a) (getAttributesForElement w el))
                then issues
                else if hasWildcardForElement w el then issues
                else push issues \<lparr>issue_path = path @ ''.'' @ key,
                                   issue_message = msgUnknownProperty key el\<rparr>)
             ks issues0
        = issues0 @ map (\<lambda>key. \<lparr>issue_path = path @ ''.'' @ key,
                                issue_message = msgUnknownProperty key el\<rparr>)
                      (filter (unknownKey w ap tk el) ks)" for ks
    by (induction ks arbitrary: issues0) (simp_all add: push_def unknownKey_def)
  then show ?thesis unfolding checkUnknownKeys_def unknownKeyIssues_def Let_def .
qed

lemma validateElement_append:
  "validateElement w ap tk el val path issues0 = issues0 @ validateElement w ap tk el val path []"
proof (induction w ap tk el val path issues0 rule: validateElement.induct)
  case (1 w ap tk el val path issues0)
  show ?case
  proof (cases "isArrayVal val")
    case arr: True
    show ?thesis
    proof (cases "isArray el")
      case False
      then show ?thesis using arr
        by (simp add: validateElement.simps [of w ap tk el val] push_def)
    next
      case True
      let ?f = "\<lambda>(i, item) issues.
                  validateElement w ap tk el item (path @ ''['' @ digits i @ '']'') issues"
      let ?g = "\<lambda>(i, item). validateElement w ap tk el item (path @ ''['' @ digits i @ '']'') []"
      have step: "?f x acc = acc @ ?g x" if "x \<in> set (enumerate 0 (itemsOf val))" for x acc
      proof -
        obtain i item where x: "x = (i, item)" by (cases x)
        show ?thesis using "1.IH"(1) [OF arr _ that x [symmetric], of acc] True
          by (simp add: x)
      qed
      have "fold ?f (enumerate 0 (itemsOf val)) acc
              = acc @ concat (map ?g (enumerate 0 (itemsOf val)))" for acc
        by (rule fold_append_concat) (rule step)
      then show ?thesis using arr True
        by (simp add: validateElement.simps [of w ap tk el val])
    qed
  next
    case narr: False
    show ?thesis
    proof (cases "resolveComplexTypeForElement w el")
      case None
      then show ?thesis using narr
        by (simp add: validateElement.simps [of w ap tk el val] push_def)
    next
      case (Some ct)
      show ?thesis
      proof (cases "val = Value JNull \<or> val = Undefined \<or> \<not> typeofObjectVal val")
        case True
        then show ?thesis using narr Some
          by (auto simp: validateElement.simps [of w ap tk el val] push_def)
      next
        case obj: False
        let ?f = "\<lambda>childEl issues.
                    (let childValue = getMember val (el_name childEl)
                     in if minOccurs childEl > 0
                           \<and> (childValue = Undefined \<or> childValue = Value JNull)
                        then push issues
                               \<lparr>issue_path = path @ ''.'' @ el_name childEl,
                                issue_message = msgChildMissing childEl\<rparr>
                        else if childValue \<noteq> Undefined \<and> childValue \<noteq> Value JNull
                        then validateElement w ap tk childEl childValue
                               (path @ ''.'' @ el_name childEl) issues
                        else issues)"
        have step: "?f c acc = acc @ childIssues w ap tk val path c"
          if "c \<in> set (getChildElementsForElement w el)" for c acc
        proof (cases "minOccurs c > 0
                      \<and> (getMember val (el_name c) = Undefined
                          \<or> getMember val (el_name c) = Value JNull)")
          case True
          then show ?thesis by (auto simp: childIssues_def push_def Let_def)
        next
          case nreq: False
          show ?thesis
          proof (cases "getMember val (el_name c) \<noteq> Undefined
                        \<and> getMember val (el_name c) \<noteq> Value JNull")
            case True
            have h3: "\<not> (val = Value JNull \<or> val = Undefined)"
              and h4: "\<not> (\<not> typeofObjectVal val \<or> isArrayVal val)"
              using obj narr by simp_all
            have "validateElement w ap tk c (getMember val (el_name c))
                     (path @ ''.'' @ el_name c) acc
                  = acc @ validateElement w ap tk c (getMember val (el_name c))
                     (path @ ''.'' @ el_name c) []"
              by (rule "1.IH"(2) [OF narr Some h3 h4 refl refl refl that refl nreq True])
            then show ?thesis using nreq True by (auto simp: childIssues_def Let_def)
          next
            case False
            then show ?thesis using nreq by (auto simp: childIssues_def Let_def)
          qed
        qed
        have "fold ?f (getChildElementsForElement w el) acc
                = acc @ concat (map (childIssues w ap tk val path) (getChildElementsForElement w el))"
          for acc
          by (rule fold_append_concat) (rule step)
        then show ?thesis using narr Some obj
          by (simp add: validateElement.simps [of w ap tk el val] Let_def
                checkRequiredAttributes_eq checkUnknownKeys_eq)
      qed
    qed
  qed
qed

lemma validateElement_array:
  assumes "isArrayVal val" and "isArray el"
  shows "validateElement w ap tk el val path [] =
           concat (map (\<lambda>(i, item).
                          validateElement w ap tk el item (path @ ''['' @ digits i @ '']'') [])
                       (enumerate 0 (itemsOf val)))"
proof -
  let ?f = "\<lambda>(i, item) issues.
              validateElement w ap tk el item (path @ ''['' @ digits i @ '']'') issues"
  let ?g = "\<lambda>(i, item). validateElement w ap tk el item (path @ ''['' @ digits i @ '']'') []"
  have step: "?f x acc = acc @ ?g x" for x acc
  proof -
    obtain i item where x: "x = (i, item)" by (cases x)
    show ?thesis
      using validateElement_append [of w ap tk el item "path @ ''['' @ digits i @ '']''" acc]
      by (simp add: x)
  qed
  have "fold ?f xs acc = acc @ concat (map ?g xs)" for xs acc
    by (rule fold_append_concat) (rule step)
  then show ?thesis using assms
    by (simp add: validateElement.simps [of w ap tk el val])
qed

lemma validateElement_object:
  assumes "resolveComplexTypeForElement w el = Some ct"
      and "\<not> isArrayVal val" and "typeofObjectVal val" and "val \<noteq> Value JNull"
  shows "validateElement w ap tk el val path [] =
           attributeIssues w ap el val path
           @ concat (map (childIssues w ap tk val path) (getChildElementsForElement w el))
           @ unknownKeyIssues w ap tk el val path"
proof -
  let ?f = "\<lambda>childEl issues.
              (let childValue = getMember val (el_name childEl)
               in if minOccurs childEl > 0 \<and> (childValue = Undefined \<or> childValue = Value JNull)
                  then push issues
                         \<lparr>issue_path = path @ ''.'' @ el_name childEl,
                          issue_message = msgChildMissing childEl\<rparr>
                  else if childValue \<noteq> Undefined \<and> childValue \<noteq> Value JNull
                  then validateElement w ap tk childEl childValue
                         (path @ ''.'' @ el_name childEl) issues
                  else issues)"
  have step: "?f c acc = acc @ childIssues w ap tk val path c" for c acc
    using validateElement_append [of w ap tk c "getMember val (el_name c)"
            "path @ ''.'' @ el_name c" acc]
    by (auto simp: childIssues_def push_def Let_def)
  have "fold ?f cs acc = acc @ concat (map (childIssues w ap tk val path) cs)" for cs acc
    by (rule fold_append_concat) (rule step)
  moreover have "val \<noteq> Undefined" using assms(3) by (auto simp: typeofObjectVal_def)
  ultimately show ?thesis using assms
    by (simp add: validateElement.simps [of w ap tk el val] Let_def
          checkRequiredAttributes_eq checkUnknownKeys_eq)
qed

lemma validateElement_other:
  "isArrayVal val \<Longrightarrow> \<not> isArray el \<Longrightarrow>
     validateElement w ap tk el val path [] =
       [\<lparr>issue_path = path, issue_message = msgNoMultiple el\<rparr>]"
  "\<not> isArrayVal val \<Longrightarrow> resolveComplexTypeForElement w el = None \<Longrightarrow>
     validateElement w ap tk el val path [] =
       (if val \<noteq> Value JNull \<and> typeofObjectVal val
        then [\<lparr>issue_path = path, issue_message = msgSimpleGotObject el\<rparr>] else [])"
  "\<not> isArrayVal val \<Longrightarrow> resolveComplexTypeForElement w el = Some ct \<Longrightarrow>
     val = Value JNull \<or> val = Undefined \<Longrightarrow>
     validateElement w ap tk el val path [] =
       (if minOccurs el > 0
        then [\<lparr>issue_path = path, issue_message = msgRequiredNull el\<rparr>] else [])"
  "\<not> isArrayVal val \<Longrightarrow> resolveComplexTypeForElement w el = Some ct \<Longrightarrow>
     val \<noteq> Value JNull \<Longrightarrow> val \<noteq> Undefined \<Longrightarrow> \<not> typeofObjectVal val \<Longrightarrow>
     validateElement w ap tk el val path [] =
       [\<lparr>issue_path = path, issue_message = msgExpectsObject el\<rparr>]"
  by (simp_all add: validateElement.simps [of w ap tk el val] push_def)

text \<open>
  Claim C3.  When the root element name is not in the schema, \<open>validateJson\<close> throws at
  once with the single issue at path \<open>$\<close>.  Otherwise it throws one error holding the
  whole list that \<open>validateElement\<close> collected, or returns when that list is empty.
  The collection never stops at an issue: what was found before a check never changes
  what the check adds, and the list is, for every value that \<open>validateElement\<close> can be
  given: for an array under an element that may repeat, the issues of every item, in
  order; for an array under an element that may not repeat, that one issue; for a value
  of a simple type, one issue if it is an object; for a complex type, one issue if it is
  \<open>null\<close> and required, one if it is a scalar, and for an object the issues of every
  required attribute that is absent, then those of every declared child (its own
  missing-issue or everything found inside it), then one for every unknown key.
\<close>

theorem validateJson_aggregates:
  "(lookupElement w (rootElement w) = None \<longrightarrow>
      validateJson json w ap tk =
        Inl (XsdValidationError
               [\<lparr>issue_path = ''$'', issue_message = rootNotFound (rootElement w)\<rparr>]))
   \<and> (\<forall>rootEl. lookupElement w (rootElement w) = Some rootEl \<longrightarrow>
         validateJson json w ap tk =
           (let found = validateElement w ap tk rootEl
                          (if objGet json (rootElement w) \<noteq> Undefined
                           then objGet json (rootElement w) else Value (JObj json))
                          (''$.'' @ rootElement w) []
            in if found = [] then Inr () else Inl (XsdValidationError found)))
   \<and> (\<forall>el val path acc.
         validateElement w ap tk el val path acc = acc @ validateElement w ap tk el val path [])
   \<and> (\<forall>el val path. isArrayVal val \<and> isArray el \<longrightarrow>
         validateElement w ap tk el val path [] =
           concat (map (\<lambda>(i, item).
                          validateElement w ap tk el item (path @ ''['' @ digits i @ '']'') [])
                       (enumerate 0 (itemsOf val))))
   \<and> (\<forall>el val path. isArrayVal val \<and> \<not> isArray el \<longrightarrow>
         validateElement w ap tk el val path [] =
           [\<lparr>issue_path = path, issue_message = msgNoMultiple el\<rparr>])
   \<and> (\<forall>el val path. \<not> isArrayVal val \<and> resolveComplexTypeForElement w el = None \<longrightarrow>
         validateElement w ap tk el val path [] =
           (if val \<noteq> Value JNull \<and> typeofObjectVal val
            then [\<lparr>issue_path = path, issue_message = msgSimpleGotObject el\<rparr>] else []))
   \<and> (\<forall>el ct val path.
         \<not> isArrayVal val \<and> resolveComplexTypeForElement w el = Some ct
         \<and> (val = Value JNull \<or> val = Undefined) \<longrightarrow>
         validateElement w ap tk el val path [] =
           (if minOccurs el > 0
            then [\<lparr>issue_path = path, issue_message = msgRequiredNull el\<rparr>] else []))
   \<and> (\<forall>el ct val path.
         \<not> isArrayVal val \<and> resolveComplexTypeForElement w el = Some ct
         \<and> val \<noteq> Value JNull \<and> val \<noteq> Undefined \<and> \<not> typeofObjectVal val \<longrightarrow>
         validateElement w ap tk el val path [] =
           [\<lparr>issue_path = path, issue_message = msgExpectsObject el\<rparr>])
   \<and> (\<forall>el ct val path.
         \<not> isArrayVal val \<and> resolveComplexTypeForElement w el = Some ct
         \<and> val \<noteq> Value JNull \<and> typeofObjectVal val \<longrightarrow>
         validateElement w ap tk el val path [] =
           attributeIssues w ap el val path
           @ concat (map (childIssues w ap tk val path) (getChildElementsForElement w el))
           @ unknownKeyIssues w ap tk el val path)"
proof (intro conjI allI impI)
  assume "lookupElement w (rootElement w) = None"
  then show "validateJson json w ap tk =
        Inl (XsdValidationError
               [\<lparr>issue_path = ''$'', issue_message = rootNotFound (rootElement w)\<rparr>])"
    by (simp add: validateJson_def push_def)
next
  fix rootEl
  assume "lookupElement w (rootElement w) = Some rootEl"
  then show "validateJson json w ap tk =
           (let found = validateElement w ap tk rootEl
                          (if objGet json (rootElement w) \<noteq> Undefined
                           then objGet json (rootElement w) else Value (JObj json))
                          (''$.'' @ rootElement w) []
            in if found = [] then Inr () else Inl (XsdValidationError found))"
    by (simp add: validateJson_def Let_def objGet_def)
next
  fix el val path acc
  show "validateElement w ap tk el val path acc = acc @ validateElement w ap tk el val path []"
    by (rule validateElement_append)
next
  fix el val path
  assume "isArrayVal val \<and> isArray el"
  then show "validateElement w ap tk el val path [] =
           concat (map (\<lambda>(i, item).
                          validateElement w ap tk el item (path @ ''['' @ digits i @ '']'') [])
                       (enumerate 0 (itemsOf val)))"
    by (simp add: validateElement_array)
next
  fix el val path
  assume "isArrayVal val \<and> \<not> isArray el"
  then show "validateElement w ap tk el val path [] =
           [\<lparr>issue_path = path, issue_message = msgNoMultiple el\<rparr>]"
    by (simp add: validateElement_other(1))
next
  fix el val path
  assume "\<not> isArrayVal val \<and> resolveComplexTypeForElement w el = None"
  then show "validateElement w ap tk el val path [] =
           (if val \<noteq> Value JNull \<and> typeofObjectVal val
            then [\<lparr>issue_path = path, issue_message = msgSimpleGotObject el\<rparr>] else [])"
    using validateElement_other(2) [of val w el ap tk path] by simp
next
  fix el ct val path
  assume "\<not> isArrayVal val \<and> resolveComplexTypeForElement w el = Some ct
         \<and> (val = Value JNull \<or> val = Undefined)"
  then show "validateElement w ap tk el val path [] =
           (if minOccurs el > 0
            then [\<lparr>issue_path = path, issue_message = msgRequiredNull el\<rparr>] else [])"
    using validateElement_other(3) [of val w el ct ap tk path] by simp
next
  fix el ct val path
  assume "\<not> isArrayVal val \<and> resolveComplexTypeForElement w el = Some ct
         \<and> val \<noteq> Value JNull \<and> val \<noteq> Undefined \<and> \<not> typeofObjectVal val"
  then show "validateElement w ap tk el val path [] =
           [\<lparr>issue_path = path, issue_message = msgExpectsObject el\<rparr>]"
    using validateElement_other(4) [of val w el ct ap tk path] by simp
next
  fix el ct val path
  assume "\<not> isArrayVal val \<and> resolveComplexTypeForElement w el = Some ct
         \<and> val \<noteq> Value JNull \<and> typeofObjectVal val"
  then show "validateElement w ap tk el val path [] =
           attributeIssues w ap el val path
           @ concat (map (childIssues w ap tk val path) (getChildElementsForElement w el))
           @ unknownKeyIssues w ap tk el val path"
    using validateElement_object [of w el ct val ap tk path] by simp
qed

lemmas walker_unfold =
  resolveComplexTypeForElement_def getChildElementsForElement_def getAttributesForElement_def
  hasWildcardForElement_def lookupElement_def truthy_def Map_get_def Map_has_def

lemmas json_unfold =
  lookupCI_def hasOwnProperty_def Object_keys_def ownProp_def objGet_def inherited_def
  prototypeFunctions_def toLowerCase_def lowerChar_def
  Array_isArray_def arrayItems_def typeofObject_def asJsonObject_def startsWith_def slice_def

lemmas jsval_unfold =
  isArrayVal_def typeofObjectVal_def itemsOf_def getMember_def keysOf_def objGet_def
  inherited_def prototypeFunctions_def Array_isArray_def arrayItems_def typeofObject_def
  asJsonObject_def Object_keys_def

lemma leaf_facts:
  "el_name (leaf n) = n" "minOccurs (leaf n) = 1" "isArray (leaf n) = False"
  "el_name ageEl = ''age''" "minOccurs ageEl = 0" "isArray ageEl = False"
  by (simp_all add: leaf_def ageEl_def)

lemma personModel_facts:
  "lookupElement personModel (rootElement personModel) = Some personElement"
  "resolveComplexTypeForElement personModel personElement = Some personT"
  "getChildElementsForElement personModel personElement = [leaf ''name'', ageEl]"
  "getAttributesForElement personModel personElement = [idAttr]"
  "hasWildcardForElement personModel personElement = False"
  "resolveComplexTypeForElement personModel (leaf n) = None"
  "resolveComplexTypeForElement personModel ageEl = None"
  by (simp_all add: walker_unfold personModel_def personElement_def typed_def leaf_def ageEl_def
        personT_def resolveAllElements.simps resolveAllAttributes.simps
        resolveHasWildcard.simps)

theorem validateJson_aggregates_witness:
  "lookupElement rootlessModel (rootElement rootlessModel) = None
   \<and> validateJson badPerson rootlessModel ''@'' ''#text'' =
        Inl (XsdValidationError
               [\<lparr>issue_path = ''$'', issue_message = rootNotFound ''envelope''\<rparr>])
   \<and> lookupElement personModel (rootElement personModel) = Some personElement
   \<and> validateJson badPerson personModel ''@'' ''#text'' =
        Inl (XsdValidationError
               [\<lparr>issue_path = ''$.person.@id'', issue_message = msgAttrMissing idAttr\<rparr>,
                \<lparr>issue_path = ''$.person.name'', issue_message = msgChildMissing (leaf ''name'')\<rparr>,
                \<lparr>issue_path = ''$.person.extra'',
                   issue_message = msgUnknownProperty ''extra'' personElement\<rparr>])
   \<and> validateJson nullIdPerson personModel ''@'' ''#text'' = Inr ()
   \<and> isArrayVal (Value (JArr [JObj [(''x'', JNum ''1'')], JStr ''ok'', JObj [(''y'', JNum ''2'')]]))
   \<and> isArray tagEl
   \<and> validateJson mixedTags listModel ''@'' ''#text'' =
        Inl (XsdValidationError
               [\<lparr>issue_path = ''$.list.tag[0]'', issue_message = msgSimpleGotObject tagEl\<rparr>,
                \<lparr>issue_path = ''$.list.tag[2]'', issue_message = msgSimpleGotObject tagEl\<rparr>])"
proof -
  note agg = validateJson_aggregates [of personModel _ "''@''" "''#text''"]
  note agg_root = agg [THEN conjunct2, THEN conjunct1, rule_format]
  note agg_simple = agg [THEN conjunct2, THEN conjunct2, THEN conjunct2, THEN conjunct2,
      THEN conjunct2, THEN conjunct1, rule_format]
  note agg_obj = agg [THEN conjunct2, THEN conjunct2, THEN conjunct2, THEN conjunct2,
      THEN conjunct2, THEN conjunct2, THEN conjunct2, THEN conjunct2, rule_format]
  note lagg = validateJson_aggregates [of listModel _ "''@''" "''#text''"]
  note lagg_root = lagg [THEN conjunct2, THEN conjunct1, rule_format]
  note lagg_arr = lagg [THEN conjunct2, THEN conjunct2, THEN conjunct2, THEN conjunct1,
      rule_format]
  note lagg_simple = lagg [THEN conjunct2, THEN conjunct2, THEN conjunct2, THEN conjunct2,
      THEN conjunct2, THEN conjunct1, rule_format]
  note lagg_obj = lagg [THEN conjunct2, THEN conjunct2, THEN conjunct2, THEN conjunct2,
      THEN conjunct2, THEN conjunct2, THEN conjunct2, THEN conjunct2, rule_format]
  have r0: "lookupElement rootlessModel (rootElement rootlessModel) = None"
    by (simp add: walker_unfold rootlessModel_def personModel_def)
  have rn: "rootElement rootlessModel = ''envelope''" by (simp add: rootlessModel_def)
  have e0: "validateJson badPerson rootlessModel ''@'' ''#text'' =
        Inl (XsdValidationError
               [\<lparr>issue_path = ''$'', issue_message = rootNotFound ''envelope''\<rparr>])"
    using validateJson_aggregates [of rootlessModel badPerson "''@''" "''#text''",
            THEN conjunct1, rule_format, OF r0] rn
    by simp
  have rp: "rootElement personModel = ''person''" by (simp add: personModel_def)
  have nm: "validateElement personModel ''@'' ''#text'' (leaf ''name'') (Value (JStr ''Ann'')) p [] = []"
    for p
    using agg_simple [of "Value (JStr ''Ann'')" "leaf ''name''" p]
    by (simp add: personModel_facts jsval_unfold)
  have obj: "validateElement personModel ''@'' ''#text'' personElement (Value (JObj ob)) p [] =
           attributeIssues personModel ''@'' personElement (Value (JObj ob)) p
           @ concat (map (childIssues personModel ''@'' ''#text'' (Value (JObj ob)) p)
                       [leaf ''name'', ageEl])
           @ unknownKeyIssues personModel ''@'' ''#text'' personElement (Value (JObj ob)) p"
    for ob p
    using agg_obj [of "Value (JObj ob)" personElement personT p] personModel_facts(2,3)
    by (simp add: jsval_unfold)
  have v1: "validateElement personModel ''@'' ''#text'' personElement (Value (JObj badPerson))
              ''$.person'' [] =
               [\<lparr>issue_path = ''$.person.@id'', issue_message = msgAttrMissing idAttr\<rparr>,
                \<lparr>issue_path = ''$.person.name'', issue_message = msgChildMissing (leaf ''name'')\<rparr>,
                \<lparr>issue_path = ''$.person.extra'',
                   issue_message = msgUnknownProperty ''extra'' personElement\<rparr>]"
    by (simp add: obj attributeIssues_def unknownKeyIssues_def childIssues_def unknownKey_def
          personModel_facts badPerson_def jsval_unfold idAttr_def leaf_facts)
  have v2: "validateElement personModel ''@'' ''#text'' personElement (Value (JObj nullIdPerson))
              ''$.person'' [] = []"
    by (simp add: obj attributeIssues_def unknownKeyIssues_def childIssues_def unknownKey_def
          personModel_facts nullIdPerson_def jsval_unfold idAttr_def leaf_facts nm)
  have e1: "validateJson badPerson personModel ''@'' ''#text'' =
              Inl (XsdValidationError
                     (validateElement personModel ''@'' ''#text'' personElement
                        (Value (JObj badPerson)) ''$.person'' []))"
    using agg_root [where json = badPerson, OF personModel_facts(1)] v1
    by (simp add: rp objGet_def inherited_def prototypeFunctions_def badPerson_def)
  have e2: "validateJson nullIdPerson personModel ''@'' ''#text'' = Inr ()"
    using agg_root [where json = nullIdPerson, OF personModel_facts(1)] v2
    by (simp add: rp objGet_def inherited_def prototypeFunctions_def nullIdPerson_def)
  have lf: "lookupElement listModel (rootElement listModel) = Some listElement"
    "rootElement listModel = ''list''"
    "resolveComplexTypeForElement listModel listElement = Some listT"
    "getChildElementsForElement listModel listElement = [tagEl]"
    "getAttributesForElement listModel listElement = []"
    "hasWildcardForElement listModel listElement = False"
    "resolveComplexTypeForElement listModel tagEl = None"
    "el_name tagEl = ''tag''" "minOccurs tagEl = 0" "isArray tagEl"
    by (simp_all add: walker_unfold listModel_def listElement_def typed_def tagEl_def
          listT_def resolveAllElements.simps resolveAllAttributes.simps
          resolveHasWildcard.simps)
  let ?arr = "JArr [JObj [(''x'', JNum ''1'')], JStr ''ok'', JObj [(''y'', JNum ''2'')]]"
  have ia: "isArrayVal (Value ?arr)" by (simp add: jsval_unfold)
  have item: "validateElement listModel ''@'' ''#text'' tagEl (Value j) p [] =
                (if j \<noteq> JNull \<and> typeofObject j
                 then [\<lparr>issue_path = p, issue_message = msgSimpleGotObject tagEl\<rparr>] else [])"
    if "\<not> Array_isArray j" for j p
    using lagg_simple [of "Value j" tagEl p] that lf(7)
    by (simp add: isArrayVal_def typeofObjectVal_def)
  have arr: "validateElement listModel ''@'' ''#text'' tagEl (Value ?arr) ''$.list.tag'' [] =
               [\<lparr>issue_path = ''$.list.tag[0]'', issue_message = msgSimpleGotObject tagEl\<rparr>,
                \<lparr>issue_path = ''$.list.tag[2]'', issue_message = msgSimpleGotObject tagEl\<rparr>]"
    using lagg_arr [of "Value ?arr" tagEl "''$.list.tag''"] ia lf(10)
    by (simp add: itemsOf_def arrayItems_def item Array_isArray_def typeofObject_def
          digits.simps)
  have v3: "validateElement listModel ''@'' ''#text'' listElement (Value (JObj mixedTags))
              ''$.list'' [] =
               [\<lparr>issue_path = ''$.list.tag[0]'', issue_message = msgSimpleGotObject tagEl\<rparr>,
                \<lparr>issue_path = ''$.list.tag[2]'', issue_message = msgSimpleGotObject tagEl\<rparr>]"
    using lagg_obj [of "Value (JObj mixedTags)" listElement listT "''$.list''"] lf(3)
    by (simp add: lf attributeIssues_def unknownKeyIssues_def childIssues_def unknownKey_def
          mixedTags_def jsval_unfold arr [unfolded jsval_unfold])
  have e3: "validateJson mixedTags listModel ''@'' ''#text'' =
              Inl (XsdValidationError
                     (validateElement listModel ''@'' ''#text'' listElement
                        (Value (JObj mixedTags)) ''$.list'' []))"
    using lagg_root [where json = mixedTags, OF lf(1)] v3
    by (simp add: lf(2) objGet_def inherited_def prototypeFunctions_def mixedTags_def)
  show ?thesis using r0 e0 e1 e2 v1 personModel_facts(1) ia lf(10) e3 v3 by simp
qed
section \<open>Builder: the shape of what \<open>buildElement\<close> returns\<close>

lemma attachAll_Nil [simp]: "attachAll node [] = node"
  by (cases node) simp_all

lemma attachAll_append: "attachAll (attachAll node xs) ys = attachAll node (xs @ ys)"
  by (cases node) simp_all

lemma attach_attachAll: "attach node c = attachAll node [c]"
  by (cases node) simp_all

lemma forEach_collect:
  assumes "\<And>x node. x \<in> set xs \<Longrightarrow>
             f x node = (case g x of Inl e \<Rightarrow> Inl e | Inr cs \<Rightarrow> Inr (attachAll node cs))"
  shows "forEach f xs node =
           (case collect g xs of Inl e \<Rightarrow> Inl e | Inr cs \<Rightarrow> Inr (attachAll node cs))"
  using assms
proof (induction xs arbitrary: node)
  case Nil
  then show ?case by simp
next
  case (Cons x xs)
  show ?case
  proof (cases "g x")
    case (Inl e)
    then show ?thesis using Cons.prems [of x node] by simp
  next
    case (Inr ys)
    have "forEach f xs (attachAll node ys) =
            (case collect g xs of Inl e \<Rightarrow> Inl e
             | Inr cs \<Rightarrow> Inr (attachAll (attachAll node ys) cs))"
      by (rule Cons.IH) (simp add: Cons.prems)
    then show ?thesis using Inr Cons.prems [of x node]
      by (simp add: attachAll_append split: sum.splits)
  qed
qed

lemma forEach_items:
  "forEach (\<lambda>(i, item) node.
              (case B i item of Inl e \<Rightarrow> Inl e | Inr childNode \<Rightarrow> Inr (attach node childNode)))
           xs node
   = (case collect (\<lambda>(i, item). single (B i item)) xs of
        Inl e \<Rightarrow> Inl e | Inr cs \<Rightarrow> Inr (attachAll node cs))"
  by (rule forEach_collect)
     (auto simp: single_def attach_attachAll split: sum.splits prod.splits)

lemma childStep_general:
  "(if cv = None \<or> cv = Some JNull then Inr node
    else if Array_isArray (the cv) then
      forEach (\<lambda>(i, item) node.
                 (case B i item of Inl e \<Rightarrow> Inl e
                  | Inr childNode \<Rightarrow> Inr (attach node childNode)))
              xs node
    else (case B1 of Inl e \<Rightarrow> Inl e | Inr childNode \<Rightarrow> Inr (attach node childNode)))
   = (case (if cv = None \<or> cv = Some JNull then Inr []
            else if Array_isArray (the cv) then collect (\<lambda>(i, item). single (B i item)) xs
            else single B1) of
        Inl e \<Rightarrow> Inl e
      | Inr cs \<Rightarrow> Inr (attachAll node cs))"
  by (simp add: forEach_items single_def attach_attachAll split: sum.splits)

lemma childStep_emittedFor:
  "(let childValue = lookupCI obj (el_name childEl)
    in if childValue = None \<or> childValue = Some JNull then Inr node
       else if Array_isArray (the childValue) then
         forEach (\<lambda>(i, item) node.
             (case buildElement w options (node_ele (el_name childEl)) childEl item
                     (path @ ''.'' @ el_name childEl @ ''['' @ digits i @ '']'') of
                Inl e \<Rightarrow> Inl e
              | Inr childNode \<Rightarrow> Inr (attach node childNode)))
           (enumerate 0 (arrayItems (the childValue))) node
       else
         (case buildElement w options (node_ele (el_name childEl)) childEl (the childValue)
                 (path @ ''.'' @ el_name childEl) of
            Inl e \<Rightarrow> Inl e
          | Inr childNode \<Rightarrow> Inr (attach node childNode)))
   = (case emittedFor w options obj path childEl of
        Inl e \<Rightarrow> Inl e
      | Inr cs \<Rightarrow> Inr (attachAll node cs))"
  unfolding emittedFor_def Let_def by (rule childStep_general)

text \<open>
  \<open>buildElement\<close> on an object of a complex type, with the loop over the children
  written as the nodes it collects.
\<close>

lemma buildElement_object:
  assumes "resolveComplexTypeForElement w el = Some ct"
  shows "buildElement w options node el (JObj obj) path =
     (let node1 = fold (applyAttribute obj (attributePrefix options))
                    (getAttributesForElement w el) node
      in if hasTextContent ct \<and> objGet obj (textNodeKey options) \<noteq> Undefined
         then Inr (node_txt node1 (stringOf (objGet obj (textNodeKey options))))
         else
           (case collect (emittedFor w options obj path) (getChildElementsForElement w el) of
              Inl e \<Rightarrow> Inl e
            | Inr cs \<Rightarrow>
                Inr (if hasWildcardForElement w el
                     then wildcardPassThrough (attributePrefix options) (textNodeKey options)
                            (lowerSet (map el_name (getChildElementsForElement w el)))
                            obj path (attachAll node1 cs)
                     else attachAll node1 cs)))"
proof -
  have loop: "forEach (\<lambda>childEl node.
                 (let childValue = lookupCI obj (el_name childEl)
                  in if childValue = None \<or> childValue = Some JNull then Inr node
                     else if Array_isArray (the childValue) then
                       forEach (\<lambda>(i, item) node.
                           (case buildElement w options (node_ele (el_name childEl)) childEl item
                                   (path @ ''.'' @ el_name childEl @ ''['' @ digits i @ '']'') of
                              Inl e \<Rightarrow> Inl e
                            | Inr childNode \<Rightarrow> Inr (attach node childNode)))
                         (enumerate 0 (arrayItems (the childValue))) node
                     else
                       (case buildElement w options (node_ele (el_name childEl)) childEl
                               (the childValue) (path @ ''.'' @ el_name childEl) of
                          Inl e \<Rightarrow> Inl e
                        | Inr childNode \<Rightarrow> Inr (attach node childNode))))
               cs n
             = (case collect (emittedFor w options obj path) cs of
                  Inl e \<Rightarrow> Inl e | Inr ns \<Rightarrow> Inr (attachAll n ns))" for cs n
    by (rule forEach_collect) (rule childStep_emittedFor)
  note loop' = loop [unfolded Let_def]
  show ?thesis using assms
    by (auto simp: buildElement.simps [of w options node el "JObj obj"] Let_def loop'
          Array_isArray_def typeofObject_def asJsonObject_def split: sum.splits)
qed

lemma buildElement_array:
  "Array_isArray val \<Longrightarrow>
     buildElement w options node el val path = Inl (XsdMappingError path (unexpectedArray el))"
  by (simp add: buildElement.simps [of w options node el val])

lemma buildElement_null: "buildElement w options node el JNull path = Inr node"
  by (simp add: buildElement.simps [of w options node el JNull] Array_isArray_def)

lemma not_typeofObject:
  "\<not> typeofObject val \<Longrightarrow> \<not> Array_isArray val \<and> val \<noteq> JNull"
  by (cases val) (simp_all add: typeofObject_def Array_isArray_def)

lemma buildElement_scalar:
  "\<not> typeofObject val \<Longrightarrow>
     buildElement w options node el val path = Inr (node_txt node (jsString val))"
  using not_typeofObject [of val]
  by (simp add: buildElement.simps [of w options node el val] split: option.splits)

lemma buildElement_simple_object:
  "resolveComplexTypeForElement w el = None \<Longrightarrow>
     buildElement w options node el (JObj obj) path = Inr (node_txt node (jsString (JObj obj)))"
  by (simp add: buildElement.simps [of w options node el "JObj obj"] Array_isArray_def)

lemma applyAttribute_shape:
  "\<exists>as'. applyAttribute obj ap a (Element t as ks) = Element t as' ks
         \<and> fst ` set as' \<subseteq> insert (attr_name a) (fst ` set as)"
  by (auto simp: applyAttribute_def Let_def AList.dom_update)

lemma subset_chain: "A2 \<subseteq> A1 \<union> X \<Longrightarrow> A1 \<subseteq> insert a A \<Longrightarrow> A2 \<subseteq> A \<union> insert a X"
  by blast

lemma fold_applyAttribute_shape:
  "\<exists>as'. fold (applyAttribute obj ap) attrDefs (Element t as ks) = Element t as' ks
         \<and> fst ` set as' \<subseteq> fst ` set as \<union> attr_name ` set attrDefs"
proof (induction attrDefs arbitrary: as)
  case Nil
  then show ?case by simp
next
  case (Cons a attrDefs)
  obtain as1 where a1: "applyAttribute obj ap a (Element t as ks) = Element t as1 ks"
    and s1: "fst ` set as1 \<subseteq> insert (attr_name a) (fst ` set as)"
    using applyAttribute_shape by blast
  obtain as2 where a2: "fold (applyAttribute obj ap) attrDefs (Element t as1 ks) = Element t as2 ks"
    and s2: "fst ` set as2 \<subseteq> fst ` set as1 \<union> attr_name ` set attrDefs"
    using Cons.IH by blast
  have "fst ` set as2 \<subseteq> fst ` set as \<union> insert (attr_name a) (attr_name ` set attrDefs)"
    by (rule subset_chain [OF s2 s1])
  then have "fst ` set as2 \<subseteq> fst ` set as \<union> attr_name ` set (a # attrDefs)"
    by simp
  then show ?case using a1 a2 by auto
qed

lemma fold_tagOf:
  assumes "\<And>x n. x \<in> set xs \<Longrightarrow> tagOf n = Some t \<Longrightarrow> tagOf (f x n) = Some t"
      and "tagOf n = Some t"
  shows "tagOf (fold f xs n) = Some t"
  using assms by (induction xs arbitrary: n) simp_all

lemma tagOf_node_ops:
  "tagOf n = Some t \<Longrightarrow> tagOf (node_att n k v) = Some t"
  "tagOf n = Some t \<Longrightarrow> tagOf (node_txt n s) = Some t"
  "tagOf n = Some t \<Longrightarrow> tagOf (attach n c) = Some t"
  by (cases n; simp)+

lemma buildWildcardValue_tag:
  "tagOf node = Some t \<Longrightarrow> tagOf (buildWildcardValue node val path ap tk) = Some t"
proof -
  assume t: "tagOf node = Some t"
  have inner: "tagOf (fold (\<lambda>(i, item) node. attach node (F i item)) xs n) = Some t"
    if "tagOf n = Some t" for F :: "nat \<Rightarrow> json \<Rightarrow> xml" and xs n
    using that by (intro fold_tagOf) (auto simp: tagOf_node_ops)
  have "tagOf (fold (\<lambda>(key, v) node.
               if v = JNull then node
               else if key = tk then node_txt node (jsString v)
               else if startsWith key ap then node_att node (slice key (length ap)) (jsString v)
               else if Array_isArray v then
                 fold (\<lambda>(i, item) node.
                        attach node
                          (buildWildcardValue (node_ele key) item
                             (path @ ''.'' @ key @ ''['' @ digits i @ '']'') ap tk))
                      (enumerate 0 (arrayItems v)) node
               else
                 attach node
                   (buildWildcardValue (node_ele key) v (path @ ''.'' @ key) ap tk))
             kvs node) = Some t" for kvs
    using t by (intro fold_tagOf) (auto simp: tagOf_node_ops inner)
  then show ?thesis using t
    by (simp add: buildWildcardValue.simps [of node val] tagOf_node_ops)
qed

lemma tagOf_Some_iff: "tagOf n = Some t \<longleftrightarrow> (\<exists>as ks. n = Element t as ks)"
  by (cases n) auto

lemma fold_attach_items:
  "fold (\<lambda>(i, item) node. attach node (F i item)) xs (Element t as ks)
     = Element t as (ks @ map (\<lambda>(i, item). F i item) xs)"
  by (induction xs arbitrary: ks) (auto split: prod.splits)

text \<open>
  The wildcard pass appends elements only, each named after a key of the object that
  is not the text key, does not start with the attribute prefix, and whose lowered
  form is not the lowered name of a declared child.
\<close>

lemma wildcardPassThrough_shape:
  "\<exists>ws. wildcardPassThrough ap tk known obj path (Element t as ks) = Element t as (ks @ ws)
        \<and> (\<forall>n \<in> set ws. \<exists>key \<in> set (Object_keys obj).
               tagOf n = Some key \<and> toLowerCase key \<notin> known \<and> key \<noteq> tk
               \<and> \<not> startsWith key ap)"
proof -
  let ?step = "\<lambda>key node.
            if key = tk then node
            else if startsWith key ap then node
            else if toLowerCase key \<in> known then node
            else (case ownProp obj key of
                    None \<Rightarrow> node
                  | Some wildcardValue \<Rightarrow>
                      if wildcardValue = JNull then node
                      else if Array_isArray wildcardValue then
                        fold (\<lambda>(i, item) node.
                               attach node
                                 (buildWildcardValue (node_ele key) item
                                    (path @ ''.'' @ key @ ''['' @ digits i @ '']'') ap tk))
                             (enumerate 0 (arrayItems wildcardValue)) node
                      else
                        attach node
                          (buildWildcardValue (node_ele key) wildcardValue
                             (path @ ''.'' @ key) ap tk))"
  have el: "tagOf (buildWildcardValue (node_ele key) v p ap tk) = Some key" for key v p
    by (rule buildWildcardValue_tag) (simp add: node_ele_def)
  have step: "\<exists>ws. ?step key (Element t as ks) = Element t as (ks @ ws)
                \<and> (\<forall>n \<in> set ws. tagOf n = Some key \<and> toLowerCase key \<notin> known \<and> key \<noteq> tk
                       \<and> \<not> startsWith key ap)" for key ks
    by (auto simp: fold_attach_items el split: option.splits prod.splits)
  have "\<exists>ws. fold ?step keys (Element t as ks) = Element t as (ks @ ws)
            \<and> (\<forall>n \<in> set ws. \<exists>key \<in> set keys.
                  tagOf n = Some key \<and> toLowerCase key \<notin> known \<and> key \<noteq> tk
                  \<and> \<not> startsWith key ap)" for keys
  proof (induction keys arbitrary: ks)
    case Nil
    then show ?case by simp
  next
    case (Cons key keys)
    obtain w1 where w1: "?step key (Element t as ks) = Element t as (ks @ w1)"
      and p1: "\<forall>n \<in> set w1. tagOf n = Some key \<and> toLowerCase key \<notin> known \<and> key \<noteq> tk
                 \<and> \<not> startsWith key ap"
      using step [of key ks] by blast
    obtain w2 where w2: "fold ?step keys (Element t as (ks @ w1)) = Element t as ((ks @ w1) @ w2)"
      and p2: "\<forall>n \<in> set w2. \<exists>key \<in> set keys.
                  tagOf n = Some key \<and> toLowerCase key \<notin> known \<and> key \<noteq> tk
                  \<and> \<not> startsWith key ap"
      using Cons.IH [of "ks @ w1"] by blast
    have "fold ?step (key # keys) (Element t as ks) = Element t as (ks @ (w1 @ w2))"
      using w1 w2 by simp
    moreover have "\<forall>n \<in> set (w1 @ w2). \<exists>k \<in> set (key # keys).
                  tagOf n = Some k \<and> toLowerCase k \<notin> known \<and> k \<noteq> tk \<and> \<not> startsWith k ap"
      using p1 p2 by auto
    ultimately show ?case by blast
  qed
  then show ?thesis unfolding wildcardPassThrough_def .
qed

lemma buildElement_shape:
  assumes "buildElement w options (Element t as ks) el val path = Inr n"
  shows "\<exists>as' new. n = Element t as' (ks @ new)"
proof (cases "Array_isArray val")
  case True
  then show ?thesis using assms by (simp add: buildElement_array)
next
  case narr: False
  show ?thesis
  proof (cases "typeofObject val")
    case False
    then have "n = Element t as (ks @ [Text (jsString val)])"
      using assms by (simp add: buildElement_scalar)
    then show ?thesis by blast
  next
    case True
    then consider "val = JNull" | obj where "val = JObj obj"
      using narr by (cases val) (auto simp: typeofObject_def Array_isArray_def)
    then show ?thesis
    proof cases
      case 1
      then have "n = Element t as (ks @ [])" using assms by (simp add: buildElement_null)
      then show ?thesis by blast
    next
      case 2
      show ?thesis
      proof (cases "resolveComplexTypeForElement w el")
        case None
        then have "n = Element t as (ks @ [Text (jsString (JObj obj))])"
          using assms 2 by (simp add: buildElement_simple_object)
        then show ?thesis by blast
      next
        case (Some ct)
        obtain as1 where n1: "fold (applyAttribute obj (attributePrefix options))
                                (getAttributesForElement w el) (Element t as ks)
                              = Element t as1 ks"
          using fold_applyAttribute_shape by blast
        show ?thesis
        proof (cases "hasTextContent ct \<and> objGet obj (textNodeKey options) \<noteq> Undefined")
          case True
          then have "n = Element t as1
                           (ks @ [Text (stringOf (objGet obj (textNodeKey options)))])"
            using assms 2 n1 by (auto simp: buildElement_object [OF Some] Let_def)
          then show ?thesis by blast
        next
          case False
          then have eq: "buildElement w options (Element t as ks) el (JObj obj) path =
                 (case collect (emittedFor w options obj path) (getChildElementsForElement w el) of
                    Inl e \<Rightarrow> Inl e
                  | Inr cs \<Rightarrow>
                      Inr (if hasWildcardForElement w el
                           then wildcardPassThrough (attributePrefix options)
                                  (textNodeKey options)
                                  (lowerSet (map el_name (getChildElementsForElement w el)))
                                  obj path (attachAll (Element t as1 ks) cs)
                           else attachAll (Element t as1 ks) cs))"
            unfolding buildElement_object [OF Some] Let_def n1 by (simp only: if_False)
          obtain cs where
            n: "n = (if hasWildcardForElement w el
                     then wildcardPassThrough (attributePrefix options) (textNodeKey options)
                            (lowerSet (map el_name (getChildElementsForElement w el)))
                            obj path (attachAll (Element t as1 ks) cs)
                     else attachAll (Element t as1 ks) cs)"
          proof (cases "collect (emittedFor w options obj path) (getChildElementsForElement w el)")
            case (Inl e)
            then show ?thesis using assms 2 eq by simp
          next
            case (Inr cs)
            then have "n = (if hasWildcardForElement w el
                     then wildcardPassThrough (attributePrefix options) (textNodeKey options)
                            (lowerSet (map el_name (getChildElementsForElement w el)))
                            obj path (attachAll (Element t as1 ks) cs)
                     else attachAll (Element t as1 ks) cs)"
              using assms 2 eq by simp
            then show ?thesis by (rule that)
          qed
          show ?thesis
          proof (cases "hasWildcardForElement w el")
            case True
            obtain ws where "wildcardPassThrough (attributePrefix options) (textNodeKey options)
                            (lowerSet (map el_name (getChildElementsForElement w el)))
                            obj path (Element t as1 (ks @ cs)) = Element t as1 ((ks @ cs) @ ws)"
              using wildcardPassThrough_shape by blast
            then have "n = Element t as1 (ks @ (cs @ ws))" using n True by simp
            then show ?thesis by blast
          next
            case False
            then have "n = Element t as1 (ks @ cs)" using n by simp
            then show ?thesis by blast
          qed
        qed
      qed
    qed
  qed
qed

lemma collect_all:
  assumes "collect f xs = Inr zs"
      and "\<And>x ys. x \<in> set xs \<Longrightarrow> f x = Inr ys \<Longrightarrow> \<forall>y \<in> set ys. P y"
  shows "\<forall>z \<in> set zs. P z"
  using assms
proof (induction xs arbitrary: zs)
  case Nil
  then show ?case by simp
next
  case (Cons x xs)
  then show ?case by (fastforce split: sum.splits)
qed

lemma collect_append:
  "collect f (xs @ ys) =
     (case collect f xs of
        Inl e \<Rightarrow> Inl e
      | Inr a \<Rightarrow> (case collect f ys of Inl e \<Rightarrow> Inl e | Inr b \<Rightarrow> Inr (a @ b)))"
  by (induction xs) (auto split: sum.splits)

lemma collect_single:
  assumes "collect (\<lambda>x. single (h x)) xs = Inr cs"
  shows "length cs = length xs \<and> (\<forall>i < length xs. h (xs ! i) = Inr (cs ! i))"
  using assms
proof (induction xs arbitrary: cs)
  case Nil
  then show ?case by simp
next
  case (Cons x xs)
  from Cons.prems obtain c cs' where c: "h x = Inr c" and cs': "collect (\<lambda>x. single (h x)) xs = Inr cs'"
    and cs: "cs = c # cs'"
    by (auto simp: single_def split: sum.splits)
  have "length cs' = length xs \<and> (\<forall>i < length xs. h (xs ! i) = Inr (cs' ! i))"
    by (rule Cons.IH [OF cs'])
  then show ?case using c cs by (auto simp: nth_Cons split: nat.splits)
qed

lemma emittedFor_tags:
  assumes "emittedFor w options obj path childEl = Inr ns"
  shows "\<forall>n \<in> set ns. tagOf n = Some (el_name childEl)"
proof -
  have one: "tagOf c = Some (el_name childEl)"
    if "buildElement w options (node_ele (el_name childEl)) childEl v p = Inr c" for v p c
    using buildElement_shape [of w options "el_name childEl" "[]" "[]" childEl v p c] that
    by (auto simp: node_ele_def)
  show ?thesis
  proof (cases "lookupCI obj (el_name childEl) = None \<or> lookupCI obj (el_name childEl) = Some JNull")
    case True
    then show ?thesis using assms by (auto simp: emittedFor_def Let_def)
  next
    case nn: False
    show ?thesis
    proof (cases "Array_isArray (the (lookupCI obj (el_name childEl)))")
      case True
      then have "collect (\<lambda>(i, item).
                      single (buildElement w options (node_ele (el_name childEl)) childEl item
                                (path @ ''.'' @ el_name childEl @ ''['' @ digits i @ '']'')))
                   (enumerate 0 (arrayItems (the (lookupCI obj (el_name childEl))))) = Inr ns"
        using assms nn by (simp add: emittedFor_def Let_def)
      then show ?thesis
        by (rule collect_all) (auto simp: single_def one split: sum.splits)
    next
      case False
      then show ?thesis using assms nn
        by (auto simp: emittedFor_def Let_def single_def one split: sum.splits)
    qed
  qed
qed

section \<open>Builder: null items of an array\<close>

lemma collect_enumerate_single:
  assumes "collect (\<lambda>(i, item). single (B i item)) (enumerate n items) = Inr cs"
  shows "length cs = length items \<and> (\<forall>i < length items. B (n + i) (items ! i) = Inr (cs ! i))"
proof -
  have "(\<lambda>(i, item). single (B i item)) = (\<lambda>x. single (case x of (i, item) \<Rightarrow> B i item))"
    by (simp add: fun_eq_iff split: prod.splits)
  then have "collect (\<lambda>x. single (case x of (i, item) \<Rightarrow> B i item)) (enumerate n items) = Inr cs"
    using assms by simp
  from collect_single [OF this] show ?thesis
    by (simp add: nth_enumerate_eq)
qed

lemma collect_member:
  assumes "collect f xs = Inr zs" and "x \<in> set xs"
  shows "\<exists>pre ys post. f x = Inr ys \<and> zs = pre @ ys @ post"
proof -
  obtain xs1 xs2 where xs: "xs = xs1 @ x # xs2"
    using assms(2) by (meson split_list)
  have "collect f (xs1 @ [x] @ xs2) = Inr zs" using assms(1) xs by simp
  then obtain pre ys post where "collect f xs1 = Inr pre" "f x = Inr ys" "collect f xs2 = Inr post"
    and "zs = pre @ ys @ post"
    by (auto simp: collect_append split: sum.splits)
  then show ?thesis by blast
qed

text \<open>
  What a successful \<open>buildElement\<close> on an object of a complex type leaves under the
  node: the nodes collected for the declared children, then the wildcard nodes.
\<close>

lemma buildElement_children:
  assumes "resolveComplexTypeForElement w el = Some ct"
      and "\<not> (hasTextContent ct \<and> objGet obj (textNodeKey options) \<noteq> Undefined)"
      and "buildElement w options (Element t as ks) el (JObj obj) path = Inr node'"
  shows "\<exists>as' cs ws.
           node' = Element t as' (ks @ cs @ ws)
           \<and> fst ` set as' \<subseteq> fst ` set as \<union> attr_name ` set (getAttributesForElement w el)
           \<and> collect (emittedFor w options obj path) (getChildElementsForElement w el) = Inr cs
           \<and> (\<not> hasWildcardForElement w el \<longrightarrow> ws = [])
           \<and> (\<forall>n \<in> set ws. \<exists>key \<in> set (Object_keys obj).
                  tagOf n = Some key
                  \<and> toLowerCase key \<notin> lowerSet (map el_name (getChildElementsForElement w el))
                  \<and> key \<noteq> textNodeKey options
                  \<and> \<not> startsWith key (attributePrefix options))"
proof -
  obtain as1 where n1: "fold (applyAttribute obj (attributePrefix options))
                          (getAttributesForElement w el) (Element t as ks) = Element t as1 ks"
    and s1: "fst ` set as1 \<subseteq> fst ` set as \<union> attr_name ` set (getAttributesForElement w el)"
    using fold_applyAttribute_shape by blast
  have eq: "buildElement w options (Element t as ks) el (JObj obj) path =
         (case collect (emittedFor w options obj path) (getChildElementsForElement w el) of
            Inl e \<Rightarrow> Inl e
          | Inr cs \<Rightarrow>
              Inr (if hasWildcardForElement w el
                   then wildcardPassThrough (attributePrefix options) (textNodeKey options)
                          (lowerSet (map el_name (getChildElementsForElement w el)))
                          obj path (attachAll (Element t as1 ks) cs)
                   else attachAll (Element t as1 ks) cs))"
    using assms(2) unfolding buildElement_object [OF assms(1)] Let_def n1
    by (simp only: if_False)
  obtain cs where cs: "collect (emittedFor w options obj path)
                         (getChildElementsForElement w el) = Inr cs"
    and n: "node' = (if hasWildcardForElement w el
                     then wildcardPassThrough (attributePrefix options) (textNodeKey options)
                            (lowerSet (map el_name (getChildElementsForElement w el)))
                            obj path (attachAll (Element t as1 ks) cs)
                     else attachAll (Element t as1 ks) cs)"
  proof (cases "collect (emittedFor w options obj path) (getChildElementsForElement w el)")
    case (Inl e)
    then show ?thesis using assms(3) eq by simp
  next
    case (Inr cs)
    then have "node' = (if hasWildcardForElement w el
                     then wildcardPassThrough (attributePrefix options) (textNodeKey options)
                            (lowerSet (map el_name (getChildElementsForElement w el)))
                            obj path (attachAll (Element t as1 ks) cs)
                     else attachAll (Element t as1 ks) cs)"
      using assms(3) eq by simp
    then show ?thesis using Inr by (rule that [rotated])
  qed
  show ?thesis
  proof (cases "hasWildcardForElement w el")
    case True
    obtain ws where ws: "wildcardPassThrough (attributePrefix options) (textNodeKey options)
                            (lowerSet (map el_name (getChildElementsForElement w el)))
                            obj path (Element t as1 (ks @ cs)) = Element t as1 ((ks @ cs) @ ws)"
      and pw: "\<forall>n \<in> set ws. \<exists>key \<in> set (Object_keys obj).
                  tagOf n = Some key
                  \<and> toLowerCase key \<notin> lowerSet (map el_name (getChildElementsForElement w el))
                  \<and> key \<noteq> textNodeKey options
                  \<and> \<not> startsWith key (attributePrefix options)"
      using wildcardPassThrough_shape by blast
    have "node' = Element t as1 (ks @ cs @ ws)" using n True ws by simp
    then show ?thesis using s1 cs pw True
      by - (rule exI [of _ as1], rule exI [of _ cs], rule exI [of _ ws], simp)
  next
    case False
    then have "node' = Element t as1 (ks @ cs @ [])" using n by simp
    then show ?thesis using s1 cs False
      by - (rule exI [of _ as1], rule exI [of _ cs], rule exI [of _ "[]"], simp)
  qed
qed

text \<open>
  Claim C9.  When the value of a declared child is an array, the builder creates one
  child element per item and hands the item to \<open>buildElement\<close>, which returns at once
  for \<open>null\<close>: the element for a \<open>null\<close> item is there, and it is empty.
\<close>

theorem null_array_item_emits_empty_element:
  assumes "resolveComplexTypeForElement w el = Some ct"
      and "\<not> (hasTextContent ct \<and> objGet obj (textNodeKey options) \<noteq> Undefined)"
      and "childEl \<in> set (getChildElementsForElement w el)"
      and "lookupCI obj (el_name childEl) = Some (JArr items)"
      and "i < length items"
      and "items ! i = JNull"
      and "buildElement w options (Element t as ks) el (JObj obj) path = Inr node'"
  shows "\<exists>pre cs post.
           kids node' = ks @ pre @ cs @ post
           \<and> emittedFor w options obj path childEl = Inr cs
           \<and> length cs = length items
           \<and> cs ! i = Element (el_name childEl) [] []"
proof -
  obtain as' all ws where node': "node' = Element t as' (ks @ all @ ws)"
    and all: "collect (emittedFor w options obj path) (getChildElementsForElement w el) = Inr all"
    using buildElement_children [OF assms(1,2,7)] by blast
  obtain pre cs post where cs: "emittedFor w options obj path childEl = Inr cs"
    and split: "all = pre @ cs @ post"
    using collect_member [OF all assms(3)] by blast
  let ?B = "\<lambda>i item. buildElement w options (node_ele (el_name childEl)) childEl item
                        (path @ ''.'' @ el_name childEl @ ''['' @ digits i @ '']'')"
  have "collect (\<lambda>(i, item). single (?B i item)) (enumerate 0 items) = Inr cs"
    using cs assms(4) by (simp add: emittedFor_def Array_isArray_def arrayItems_def)
  from collect_enumerate_single [OF this]
  have len: "length cs = length items" and "?B (0 + i) (items ! i) = Inr (cs ! i)"
    using assms(5) by blast+
  then have "cs ! i = Element (el_name childEl) [] []"
    using assms(6) by (simp add: buildElement_null node_ele_def)
  moreover have "kids node' = ks @ pre @ cs @ (post @ ws)"
    using node' split by simp
  ultimately show ?thesis using cs len
    by - (rule exI [of _ pre], rule exI [of _ cs], rule exI [of _ "post @ ws"], simp)
qed

lemma listModel_facts:
  "lookupElement listModel (rootElement listModel) = Some listElement"
  "rootElement listModel = ''list''"
  "resolveComplexTypeForElement listModel listElement = Some listT"
  "getChildElementsForElement listModel listElement = [tagEl]"
  "getAttributesForElement listModel listElement = []"
  "hasWildcardForElement listModel listElement = False"
  "resolveComplexTypeForElement listModel tagEl = None"
  "hasTextContent listT = False"
  "el_name tagEl = ''tag''"
  by (simp_all add: walker_unfold listModel_def listElement_def typed_def tagEl_def
        listT_def resolveAllElements.simps resolveAllAttributes.simps
        resolveHasWildcard.simps)

lemma typeofObject_simps:
  "typeofObject (JStr s) = False" "typeofObject (JNum s) = False"
  "typeofObject (JBool b) = False" "typeofObject JNull = True"
  "typeofObject (JObj kvs) = True" "typeofObject (JArr xs) = True"
  "Array_isArray (JArr xs) = True" "Array_isArray (JObj kvs) = False"
  "Array_isArray (JStr s) = False" "Array_isArray (JNum s) = False"
  "Array_isArray (JBool b) = False" "Array_isArray JNull = False"
  "arrayItems (JArr xs) = xs"
  by (simp_all add: typeofObject_def Array_isArray_def arrayItems_def)

lemma defaultOptions_facts:
  "attributePrefix defaultOptions = ''@''" "textNodeKey defaultOptions = ''#text''"
  "opt_targetNamespace defaultOptions = None"
  by (simp_all add: defaultOptions_def)

lemma buildXml_found:
  "lookupElement w (rootElement w) = Some rootEl \<Longrightarrow>
     buildXml json w options =
       buildElement w options
         (if truthy (opt_targetNamespace options)
          then Element (rootElement w) [(''xmlns'', the (opt_targetNamespace options))] []
          else node_ele (rootElement w))
         rootEl
         (case lookupCI json (rootElement w) of Some v \<Rightarrow> v | None \<Rightarrow> JObj json)
         (''$.'' @ rootElement w)"
  by (simp add: buildXml_def Let_def split: option.splits)

lemma buildXml_missing:
  "lookupElement w (rootElement w) = None \<Longrightarrow>
     buildXml json w options = Inl (XsdMappingError ''$'' (rootNotFound (rootElement w)))"
  by (simp add: buildXml_def Let_def)

lemma tagsInput_build:
  "buildElement listModel defaultOptions (Element ''list'' [] []) listElement (JObj tagsInput)
     ''$.list''
   = Inr (Element ''list'' []
            [Element ''tag'' [] [Text ''a''], Element ''tag'' [] [], Element ''tag'' [] [Text ''b'']])"
  by (simp add: buildElement_object [OF listModel_facts(3)] listModel_facts emittedFor_def
        tagsInput_def lookupCI_def hasOwnProperty_def Object_keys_def ownProp_def objGet_def inherited_def prototypeFunctions_def
        typeofObject_simps single_def buildElement_scalar buildElement_null node_ele_def
        defaultOptions_facts)

theorem null_array_item_emits_empty_element_witness:
  "resolveComplexTypeForElement listModel listElement = Some listT
   \<and> \<not> (hasTextContent listT \<and> objGet tagsInput (textNodeKey defaultOptions) \<noteq> Undefined)
   \<and> tagEl \<in> set (getChildElementsForElement listModel listElement)
   \<and> lookupCI tagsInput (el_name tagEl) = Some (JArr [JStr ''a'', JNull, JStr ''b''])
   \<and> buildXml tagsInput listModel defaultOptions
       = Inr (Element ''list'' []
                [Element ''tag'' [] [Text ''a''], Element ''tag'' [] [],
                 Element ''tag'' [] [Text ''b'']])
   \<and> (\<exists>pre cs post.
         [Element ''tag'' [] [Text ''a''], Element ''tag'' [] [], Element ''tag'' [] [Text ''b'']]
           = pre @ cs @ post
         \<and> emittedFor listModel defaultOptions tagsInput ''$.list'' tagEl = Inr cs
         \<and> length cs = 3
         \<and> cs ! 1 = Element ''tag'' [] [])"
proof -
  have h1: "resolveComplexTypeForElement listModel listElement = Some listT"
    by (rule listModel_facts)
  have h2: "\<not> (hasTextContent listT \<and> objGet tagsInput (textNodeKey defaultOptions) \<noteq> Undefined)"
    by (simp add: listModel_facts(8))
  have h3: "tagEl \<in> set (getChildElementsForElement listModel listElement)"
    by (simp add: listModel_facts)
  have h4: "lookupCI tagsInput (el_name tagEl) = Some (JArr [JStr ''a'', JNull, JStr ''b''])"
    by (simp add: listModel_facts tagsInput_def lookupCI_def hasOwnProperty_def Object_keys_def
          ownProp_def objGet_def inherited_def prototypeFunctions_def)
  have h5: "(1::nat) < length [JStr ''a'', JNull, JStr ''b'']" by simp
  have h6: "[JStr ''a'', JNull, JStr ''b''] ! 1 = JNull" by simp
  have lk: "lookupCI tagsInput ''list'' = None"
    by (simp add: tagsInput_def lookupCI_def hasOwnProperty_def Object_keys_def ownProp_def objGet_def inherited_def prototypeFunctions_def
          toLowerCase_def lowerChar_def)
  have b: "buildXml tagsInput listModel defaultOptions
       = Inr (Element ''list'' []
                [Element ''tag'' [] [Text ''a''], Element ''tag'' [] [],
                 Element ''tag'' [] [Text ''b'']])"
    using tagsInput_build
    by (simp add: buildXml_found [OF listModel_facts(1)] listModel_facts(2) lk truthy_def
          defaultOptions_facts node_ele_def)
  from null_array_item_emits_empty_element [OF h1 h2 h3 h4 h5 h6 tagsInput_build]
  have "\<exists>pre cs post.
         [Element ''tag'' [] [Text ''a''], Element ''tag'' [] [], Element ''tag'' [] [Text ''b'']]
           = pre @ cs @ post
         \<and> emittedFor listModel defaultOptions tagsInput ''$.list'' tagEl = Inr cs
         \<and> length cs = 3
         \<and> cs ! 1 = Element ''tag'' [] []"
    by (simp add: listModel_facts numeral_3_eq_3)
  then show ?thesis using h1 h2 h3 h4 b by blast
qed

section \<open>Builder: choice branches and omitted elements\<close>

lemma lookupCI_exact:
  "ownProp obj name = Some v \<Longrightarrow> lookupCI obj name = Some v"
  by (auto simp: lookupCI_def hasOwnProperty_def Object_keys_def ownProp_def objGet_def inherited_def prototypeFunctions_def
        dest: map_of_SomeD intro: rev_image_eqI)

lemma emittedFor_null:
  "lookupCI obj (el_name childEl) = None \<or> lookupCI obj (el_name childEl) = Some JNull
     \<Longrightarrow> emittedFor w options obj path childEl = Inr []"
  by (auto simp: emittedFor_def)

lemma emittedFor_scalar:
  "lookupCI obj (el_name childEl) = Some v \<Longrightarrow> \<not> typeofObject v \<Longrightarrow>
     emittedFor w options obj path childEl = Inr [Element (el_name childEl) [] [Text (jsString v)]]"
  using not_typeofObject [of v]
  by (simp add: emittedFor_def single_def buildElement_scalar node_ele_def)

text \<open>
  A declared child whose value is absent or \<open>null\<close> leaves no element of its name under
  the parent, whatever else the parent's object holds.
\<close>

lemma no_element_for_null_child:
  assumes "c \<in> set (getChildElementsForElement w g)"
      and "lookupCI gobj (el_name c) = None \<or> lookupCI gobj (el_name c) = Some JNull"
      and "buildElement w options (Element gt gas gks) g (JObj gobj) gpath = Inr node'"
  shows "\<exists>new. kids node' = gks @ new \<and> (\<forall>n \<in> set new. tagOf n \<noteq> Some (el_name c))"
proof (cases "resolveComplexTypeForElement w g")
  case None
  then have "kids node' = gks @ [Text (jsString (JObj gobj))]"
    using assms(3) by (auto simp: buildElement_simple_object)
  then show ?thesis by (intro exI [of _ "[Text (jsString (JObj gobj))]"]) simp
next
  case (Some gct)
  show ?thesis
  proof (cases "hasTextContent gct \<and> objGet gobj (textNodeKey options) \<noteq> Undefined")
    case True
    obtain as1 where "fold (applyAttribute gobj (attributePrefix options))
                        (getAttributesForElement w g) (Element gt gas gks) = Element gt as1 gks"
      using fold_applyAttribute_shape by blast
    then have "kids node' = gks @ [Text (stringOf (objGet gobj (textNodeKey options)))]"
      using assms(3) True by (auto simp: buildElement_object [OF Some] Let_def)
    then show ?thesis
      by (intro exI [of _ "[Text (stringOf (objGet gobj (textNodeKey options)))]"]) simp
  next
    case False
    obtain as' cs ws where node': "node' = Element gt as' (gks @ cs @ ws)"
      and cs: "collect (emittedFor w options gobj gpath) (getChildElementsForElement w g) = Inr cs"
      and ws: "\<forall>n \<in> set ws. \<exists>key \<in> set (Object_keys gobj).
                  tagOf n = Some key
                  \<and> toLowerCase key \<notin> lowerSet (map el_name (getChildElementsForElement w g))
                  \<and> key \<noteq> textNodeKey options
                  \<and> \<not> startsWith key (attributePrefix options)"
      using buildElement_children [OF Some False assms(3)] by blast
    have pc: "\<forall>n \<in> set cs. tagOf n \<noteq> Some (el_name c)"
    proof (rule collect_all [OF cs])
      fix x ys
      assume x: "x \<in> set (getChildElementsForElement w g)"
        and ys: "emittedFor w options gobj gpath x = Inr ys"
      show "\<forall>y \<in> set ys. tagOf y \<noteq> Some (el_name c)"
      proof (cases "el_name x = el_name c")
        case True
        then have "ys = []" using ys emittedFor_null [of gobj x w options gpath] assms(2) by simp
        then show ?thesis by simp
      next
        case False
        then show ?thesis using emittedFor_tags [OF ys] by simp
      qed
    qed
    have "toLowerCase (el_name c) \<in> lowerSet (map el_name (getChildElementsForElement w g))"
      using assms(1) by (simp add: lowerSet_def)
    then have pw: "\<forall>n \<in> set ws. tagOf n \<noteq> Some (el_name c)"
      using ws by fastforce
    have "kids node' = gks @ (cs @ ws)" using node' by simp
    then show ?thesis using pc pw by (intro exI [of _ "cs @ ws"]) auto
  qed
qed

lemma wildcard_all_known:
  assumes "\<forall>key \<in> set (Object_keys obj). toLowerCase key \<in> known"
  shows "wildcardPassThrough ap tk known obj path (Element t as ks) = Element t as ks"
proof -
  obtain ws where w: "wildcardPassThrough ap tk known obj path (Element t as ks)
                        = Element t as (ks @ ws)"
    and p: "\<forall>n \<in> set ws. \<exists>key \<in> set (Object_keys obj).
               tagOf n = Some key \<and> toLowerCase key \<notin> known \<and> key \<noteq> tk
               \<and> \<not> startsWith key ap"
    using wildcardPassThrough_shape by blast
  have "ws = []"
  proof (cases ws)
    case Nil
    then show ?thesis .
  next
    case (Cons n ns)
    then have "\<exists>key \<in> set (Object_keys obj). toLowerCase key \<notin> known" using p by fastforce
    then show ?thesis using assms by blast
  qed
  then show ?thesis using w by simp
qed

text \<open>
  Claim C7, as the code has it.  For an element whose type is a choice of the branches
  \<open>A\<close>, \<open>B\<close>, \<open>C\<close> and carries no text content: the object with only \<open>C\<close> non-null gets
  the single child \<open>C\<close> with that text; the object with all branches \<open>null\<close> gets no
  child; and when the element is itself a declared child whose value in its parent's
  object is \<open>null\<close> or absent, the parent gets no element of that name.  Handed \<open>null\<close>
  directly (as the root value, or as an item of an array), the element is kept, empty.
\<close>

theorem choice_semantics:
  assumes "resolveComplexTypeForElement w el = Some ct"
      and "ct_compositor ct = Choice"
      and "map el_name (getChildElementsForElement w el) = [''A'', ''B'', ''C'']"
      and "\<not> hasTextContent ct"
  shows "(\<exists>as'. buildElement w options (Element t as ks) el
                  (JObj [(''A'', JNull), (''B'', JNull), (''C'', JStr ''x'')]) path
                = Inr (Element t as' (ks @ [Element ''C'' [] [Text ''x'']])))
       \<and> (\<exists>as'. buildElement w options (Element t as ks) el
                  (JObj [(''A'', JNull), (''B'', JNull), (''C'', JNull)]) path
                = Inr (Element t as' ks))
       \<and> (\<forall>g gobj gpath gt gas gks node'.
             el \<in> set (getChildElementsForElement w g)
             \<and> (lookupCI gobj (el_name el) = None \<or> lookupCI gobj (el_name el) = Some JNull)
             \<and> buildElement w options (Element gt gas gks) g (JObj gobj) gpath = Inr node'
             \<longrightarrow> (\<exists>new. kids node' = gks @ new
                        \<and> (\<forall>n \<in> set new. tagOf n \<noteq> Some (el_name el))))
       \<and> buildElement w options (node_ele (el_name el)) el JNull path
           = Inr (Element (el_name el) [] [])"
proof -
  obtain a b c where kids3: "getChildElementsForElement w el = [a, b, c]"
    and names: "el_name a = ''A''" "el_name b = ''B''" "el_name c = ''C''"
    using assms(3) by (auto simp: map_eq_Cons_conv)
  obtain asC where nC: "fold (applyAttribute [(''A'', JNull), (''B'', JNull), (''C'', JStr ''x'')]
                             (attributePrefix options))
                          (getAttributesForElement w el) (Element t as ks) = Element t asC ks"
    using fold_applyAttribute_shape by blast
  obtain asN where nN: "fold (applyAttribute [(''A'', JNull), (''B'', JNull), (''C'', JNull)]
                             (attributePrefix options))
                          (getAttributesForElement w el) (Element t as ks) = Element t asN ks"
    using fold_applyAttribute_shape by blast
  have known: "\<forall>key \<in> set (Object_keys [(''A'', x), (''B'', y), (''C'', z)]).
                 toLowerCase key \<in> lowerSet [''A'', ''B'', ''C'']"
    for x y z :: json
    by (simp add: Object_keys_def lowerSet_def)
  have look: "lookupCI [(''A'', x), (''B'', y), (''C'', z)] ''A'' = Some x"
             "lookupCI [(''A'', x), (''B'', y), (''C'', z)] ''B'' = Some y"
             "lookupCI [(''A'', x), (''B'', y), (''C'', z)] ''C'' = Some z" for x y z
    by (simp_all add: lookupCI_exact ownProp_def objGet_def inherited_def prototypeFunctions_def)
  have one: "buildElement w options (Element t as ks) el
               (JObj [(''A'', JNull), (''B'', JNull), (''C'', JStr ''x'')]) path
             = Inr (Element t asC (ks @ [Element ''C'' [] [Text ''x'']]))"
    using assms(4)
    by (simp add: buildElement_object [OF assms(1)] Let_def nC kids3 names look
          emittedFor_null emittedFor_scalar typeofObject_simps wildcard_all_known [OF known])
  have none: "buildElement w options (Element t as ks) el
               (JObj [(''A'', JNull), (''B'', JNull), (''C'', JNull)]) path
             = Inr (Element t asN ks)"
    using assms(4)
    by (simp add: buildElement_object [OF assms(1)] Let_def nN kids3 names look
          emittedFor_null wildcard_all_known [OF known])
  have omitted: "\<forall>g gobj gpath gt gas gks node'.
             el \<in> set (getChildElementsForElement w g)
             \<and> (lookupCI gobj (el_name el) = None \<or> lookupCI gobj (el_name el) = Some JNull)
             \<and> buildElement w options (Element gt gas gks) g (JObj gobj) gpath = Inr node'
             \<longrightarrow> (\<exists>new. kids node' = gks @ new
                        \<and> (\<forall>n \<in> set new. tagOf n \<noteq> Some (el_name el)))"
    using no_element_for_null_child by blast
  have kept: "buildElement w options (node_ele (el_name el)) el JNull path
           = Inr (Element (el_name el) [] [])"
    by (simp add: buildElement_null node_ele_def)
  show ?thesis
    by (intro conjI) (rule exI [of _ asC], rule one, rule exI [of _ asN], rule none,
                      rule omitted, rule kept)
qed

lemma choiceModel_facts:
  "lookupElement choiceModel (rootElement choiceModel) = Some identElement"
  "rootElement choiceModel = ''ident''"
  "resolveComplexTypeForElement choiceModel identElement = Some choiceT"
  "getChildElementsForElement choiceModel identElement = [leaf ''A'', leaf ''B'', leaf ''C'']"
  "getAttributesForElement choiceModel identElement = []"
  "hasWildcardForElement choiceModel identElement = False"
  "resolveComplexTypeForElement choiceModel wrapperElement = Some wrapperT"
  "getChildElementsForElement choiceModel wrapperElement = [identElement, leaf ''code'']"
  "getAttributesForElement choiceModel wrapperElement = []"
  "hasWildcardForElement choiceModel wrapperElement = False"
  "hasTextContent choiceT = False" "hasTextContent wrapperT = False"
  "ct_compositor choiceT = Choice"
  "el_name identElement = ''ident''"
  by (simp_all add: walker_unfold choiceModel_def identElement_def wrapperElement_def typed_def
        choiceT_def wrapperT_def resolveAllElements.simps resolveAllAttributes.simps
        resolveHasWildcard.simps)

lemma choice_builds:
  "buildElement choiceModel defaultOptions (Element ''ident'' [] []) identElement (JObj choiceC)
     ''$.ident'' = Inr (Element ''ident'' [] [Element ''C'' [] [Text ''x'']])"
  "buildElement choiceModel defaultOptions (Element ''ident'' [] []) identElement (JObj choiceNone)
     ''$.ident'' = Inr (Element ''ident'' [] [])"
  "buildElement choiceModel defaultOptions (Element ''wrapper'' [] []) wrapperElement
     (JObj wrapperInput) ''$.wrapper''
   = Inr (Element ''wrapper'' [] [Element ''code'' [] [Text ''7'']])"
  by (simp_all add: buildElement_object [OF choiceModel_facts(3)]
        buildElement_object [OF choiceModel_facts(7)] choiceModel_facts leaf_facts
        choiceC_def choiceNone_def wrapperInput_def lookupCI_exact ownProp_def objGet_def inherited_def prototypeFunctions_def
        emittedFor_null emittedFor_scalar typeofObject_simps)

theorem choice_semantics_witness:
  "resolveComplexTypeForElement choiceModel identElement = Some choiceT
   \<and> ct_compositor choiceT = Choice
   \<and> map el_name (getChildElementsForElement choiceModel identElement) = [''A'', ''B'', ''C'']
   \<and> \<not> hasTextContent choiceT
   \<and> (\<exists>as'. buildElement choiceModel defaultOptions (Element ''ident'' [] []) identElement
                (JObj [(''A'', JNull), (''B'', JNull), (''C'', JStr ''x'')]) ''$.ident''
              = Inr (Element ''ident'' as' [Element ''C'' [] [Text ''x'']]))
   \<and> buildXml choiceC choiceModel defaultOptions
       = Inr (Element ''ident'' [] [Element ''C'' [] [Text ''x'']])
   \<and> buildXml choiceNone choiceModel defaultOptions = Inr (Element ''ident'' [] [])
   \<and> identElement \<in> set (getChildElementsForElement choiceModel wrapperElement)
   \<and> lookupCI wrapperInput (el_name identElement) = Some JNull
   \<and> buildElement choiceModel defaultOptions (Element ''wrapper'' [] []) wrapperElement
         (JObj wrapperInput) ''$.wrapper''
       = Inr (Element ''wrapper'' [] [Element ''code'' [] [Text ''7'']])
   \<and> (\<exists>new. [Element ''code'' [] [Text ''7'']] = new
              \<and> (\<forall>n \<in> set new. tagOf n \<noteq> Some ''ident''))"
proof -
  have h1: "resolveComplexTypeForElement choiceModel identElement = Some choiceT"
    by (rule choiceModel_facts)
  have h2: "ct_compositor choiceT = Choice" by (rule choiceModel_facts)
  have h3: "map el_name (getChildElementsForElement choiceModel identElement)
              = [''A'', ''B'', ''C'']"
    by (simp add: choiceModel_facts leaf_facts)
  have h4: "\<not> hasTextContent choiceT" by (simp add: choiceModel_facts)
  note sem = choice_semantics [OF h1 h2 h3 h4, of defaultOptions "''ident''" "[]" "[]"
               "''$.ident''"]
  have p1: "\<exists>as'. buildElement choiceModel defaultOptions (Element ''ident'' [] []) identElement
                (JObj [(''A'', JNull), (''B'', JNull), (''C'', JStr ''x'')]) ''$.ident''
              = Inr (Element ''ident'' as' [Element ''C'' [] [Text ''x'']])"
    using sem [THEN conjunct1] by simp
  have m: "identElement \<in> set (getChildElementsForElement choiceModel wrapperElement)"
    by (simp add: choiceModel_facts)
  have l: "lookupCI wrapperInput (el_name identElement) = Some JNull"
    by (simp add: choiceModel_facts wrapperInput_def lookupCI_exact ownProp_def objGet_def inherited_def prototypeFunctions_def)
  have p3: "\<exists>new. kids (Element ''wrapper'' [] [Element ''code'' [] [Text ''7'']]) = [] @ new
              \<and> (\<forall>n \<in> set new. tagOf n \<noteq> Some (el_name identElement))"
    using sem [THEN conjunct2, THEN conjunct2, THEN conjunct1, rule_format,
               of wrapperElement wrapperInput "''wrapper''" "[]" "[]" "''$.wrapper''"
                  "Element ''wrapper'' [] [Element ''code'' [] [Text ''7'']]"]
      m l choice_builds(3)
    by blast
  have lkC: "lookupCI choiceC ''ident'' = None" "lookupCI choiceNone ''ident'' = None"
    by (simp_all add: choiceC_def choiceNone_def lookupCI_def hasOwnProperty_def Object_keys_def
          ownProp_def objGet_def inherited_def prototypeFunctions_def toLowerCase_def lowerChar_def)
  have b1: "buildXml choiceC choiceModel defaultOptions
       = Inr (Element ''ident'' [] [Element ''C'' [] [Text ''x'']])"
    and b2: "buildXml choiceNone choiceModel defaultOptions = Inr (Element ''ident'' [] [])"
    using choice_builds(1,2)
    by (simp_all add: buildXml_found [OF choiceModel_facts(1)] choiceModel_facts(2) lkC truthy_def
          defaultOptions_facts node_ele_def)
  show ?thesis using h1 h2 h3 h4 p1 b1 b2 m l choice_builds(3) p3
    by (simp add: choiceModel_facts(14))
qed

theorem null_root_counterexample:
  "resolveComplexTypeForElement choiceModel identElement = Some choiceT
   \<and> ct_compositor choiceT = Choice
   \<and> lookupElement choiceModel (rootElement choiceModel) = Some identElement
   \<and> lookupCI [(''ident'', JNull)] (rootElement choiceModel) = Some JNull
   \<and> buildXml [(''ident'', JNull)] choiceModel defaultOptions = Inr (Element ''ident'' [] [])"
  by (simp add: buildXml_found [OF choiceModel_facts(1)] choiceModel_facts
        choiceModel_facts(1) [unfolded choiceModel_facts(2)] lookupCI_exact
        ownProp_def objGet_def inherited_def prototypeFunctions_def truthy_def defaultOptions_facts node_ele_def buildElement_null)

section \<open>Builder: case-insensitive lookup, schema casing in the output\<close>

lemma scanCI_map_of:
  assumes "\<forall>(k, v) \<in> set xs. toLowerCase k \<noteq> l"
  shows "scanCI (xs @ ys) (map fst ys) l = map_of (map (\<lambda>(k, v). (toLowerCase k, v)) ys) l"
  using assms
proof (induction ys arbitrary: xs)
  case Nil
  then show ?case by simp
next
  case (Cons kv ys)
  obtain k v where kv: "kv = (k, v)" by (cases kv)
  show ?case
  proof (cases "toLowerCase k = l")
    case True
    have "k \<notin> fst ` set xs" using Cons.prems True by auto
    then have "map_of (xs @ (k, v) # ys) k = Some v"
      by (simp add: map_add_def map_of_eq_None_iff [THEN iffD2])
    then show ?thesis using True kv by (simp add: ownProp_def objGet_def inherited_def prototypeFunctions_def)
  next
    case False
    have "scanCI ((xs @ [kv]) @ ys) (map fst ys) l
            = map_of (map (\<lambda>(k, v). (toLowerCase k, v)) ys) l"
      by (rule Cons.IH) (use Cons.prems False kv in auto)
    then show ?thesis using False kv by simp
  qed
qed

lemma lookupCI_eq:
  "lookupCI obj name =
     (if name \<in> fst ` set obj then map_of obj name
      else map_of (map (\<lambda>(k, v). (toLowerCase k, v)) obj) (toLowerCase name))"
  using scanCI_map_of [of "[]" "toLowerCase name" obj]
  by (simp add: lookupCI_def hasOwnProperty_def Object_keys_def ownProp_def objGet_def inherited_def prototypeFunctions_def)

lemma emittedFor_nonempty:
  "emittedFor w options obj path c = Inr ys \<Longrightarrow> ys \<noteq> [] \<Longrightarrow>
     lookupCI obj (el_name c) \<notin> {None, Some JNull}"
proof
  assume ys: "emittedFor w options obj path c = Inr ys" and ne: "ys \<noteq> []"
    and "lookupCI obj (el_name c) \<in> {None, Some JNull}"
  then have "lookupCI obj (el_name c) = None \<or> lookupCI obj (el_name c) = Some JNull"
    by simp
  from emittedFor_null [OF this, of w options path] ys ne show False by simp
qed

lemma applyAttribute_eq:
  "applyAttribute obj ap a (Element t as ks) =
     (case attributeWritten obj ap a of
        None \<Rightarrow> Element t as ks
      | Some s \<Rightarrow> Element t (AList.update (attr_name a) s as) ks)"
  by (auto simp: applyAttribute_def attributeWritten_def Let_def split: option.splits)

lemma fold_applyAttribute_attrs:
  assumes "\<forall>d \<in> set attrDefs. attr_name d = attr_name a \<longrightarrow> d = a"
  shows "\<exists>as'. fold (applyAttribute obj ap) attrDefs (Element t as ks) = Element t as' ks
           \<and> map_of as' (attr_name a) =
               (if a \<in> set attrDefs
                then (case attributeWritten obj ap a of
                        Some s \<Rightarrow> Some s
                      | None \<Rightarrow> map_of as (attr_name a))
                else map_of as (attr_name a))"
  using assms
proof (induction attrDefs arbitrary: as)
  case Nil
  then show ?case by simp
next
  case (Cons d ds)
  define as1 where "as1 = (case attributeWritten obj ap d of
                             None \<Rightarrow> as
                           | Some s \<Rightarrow> AList.update (attr_name d) s as)"
  have step: "applyAttribute obj ap d (Element t as ks) = Element t as1 ks"
    by (simp add: applyAttribute_eq as1_def split: option.splits)
  have rest: "\<forall>d \<in> set ds. attr_name d = attr_name a \<longrightarrow> d = a" using Cons.prems by simp
  obtain as' where f: "fold (applyAttribute obj ap) ds (Element t as1 ks) = Element t as' ks"
    and m: "map_of as' (attr_name a) =
               (if a \<in> set ds
                then (case attributeWritten obj ap a of
                        Some s \<Rightarrow> Some s
                      | None \<Rightarrow> map_of as1 (attr_name a))
                else map_of as1 (attr_name a))"
    using Cons.IH [OF rest, of as1] by blast
  have one: "map_of as1 (attr_name a) =
               (if d = a
                then (case attributeWritten obj ap a of
                        Some s \<Rightarrow> Some s
                      | None \<Rightarrow> map_of as (attr_name a))
                else map_of as (attr_name a))"
  proof (cases "d = a")
    case True
    then show ?thesis by (simp add: as1_def update_conv' split: option.splits)
  next
    case False
    then have "attr_name d \<noteq> attr_name a" using Cons.prems by auto
    then show ?thesis using False by (simp add: as1_def update_conv' split: option.splits)
  qed
  have "map_of as' (attr_name a) =
               (if a \<in> set (d # ds)
                then (case attributeWritten obj ap a of
                        Some s \<Rightarrow> Some s
                      | None \<Rightarrow> map_of as (attr_name a))
                else map_of as (attr_name a))"
    using m one by (auto split: option.splits)
  then show ?case using step f by - (rule exI [of _ as'], simp)
qed

text \<open>
  The attributes of what \<open>buildElement\<close> makes of an object of a complex type are those
  that the loop over the declared attributes left.
\<close>

lemma buildElement_attrs:
  assumes "resolveComplexTypeForElement w el = Some ct"
      and "buildElement w options (Element t as ks) el (JObj obj) path = Inr node'"
  shows "attrs node' = attrs (fold (applyAttribute obj (attributePrefix options))
                               (getAttributesForElement w el) (Element t as ks))"
proof -
  obtain as1 where n1: "fold (applyAttribute obj (attributePrefix options))
                          (getAttributesForElement w el) (Element t as ks) = Element t as1 ks"
    using fold_applyAttribute_shape by blast
  show ?thesis
  proof (cases "hasTextContent ct \<and> objGet obj (textNodeKey options) \<noteq> Undefined")
    case True
    then show ?thesis using assms(2) n1
      by (auto simp: buildElement_object [OF assms(1)] Let_def)
  next
    case False
    show ?thesis
    proof (cases "collect (emittedFor w options obj path) (getChildElementsForElement w el)")
      case (Inl e)
      have "buildElement w options (Element t as ks) el (JObj obj) path =
           (case collect (emittedFor w options obj path) (getChildElementsForElement w el) of
              Inl e \<Rightarrow> Inl e
            | Inr cs \<Rightarrow>
                Inr (if hasWildcardForElement w el
                     then wildcardPassThrough (attributePrefix options) (textNodeKey options)
                            (lowerSet (map el_name (getChildElementsForElement w el)))
                            obj path
                            (attachAll (fold (applyAttribute obj (attributePrefix options))
                                          (getAttributesForElement w el) (Element t as ks)) cs)
                     else attachAll (fold (applyAttribute obj (attributePrefix options))
                                       (getAttributesForElement w el) (Element t as ks)) cs))"
        unfolding buildElement_object [OF assms(1)] Let_def by (rule if_not_P [OF False])
      then show ?thesis using assms(2) Inl by simp
    next
      case (Inr cs)
      obtain ws where "wildcardPassThrough (attributePrefix options) (textNodeKey options)
                         (lowerSet (map el_name (getChildElementsForElement w el))) obj path
                         (Element t as1 (ks @ cs)) = Element t as1 ((ks @ cs) @ ws)"
        using wildcardPassThrough_shape by blast
      then have wp: "attrs (wildcardPassThrough (attributePrefix options) (textNodeKey options)
                         (lowerSet (map el_name (getChildElementsForElement w el))) obj path
                         (Element t as1 (ks @ cs))) = as1"
        by simp
      have "buildElement w options (Element t as ks) el (JObj obj) path =
           (case collect (emittedFor w options obj path) (getChildElementsForElement w el) of
              Inl e \<Rightarrow> Inl e
            | Inr cs \<Rightarrow>
                Inr (if hasWildcardForElement w el
                     then wildcardPassThrough (attributePrefix options) (textNodeKey options)
                            (lowerSet (map el_name (getChildElementsForElement w el)))
                            obj path
                            (attachAll (fold (applyAttribute obj (attributePrefix options))
                                          (getAttributesForElement w el) (Element t as ks)) cs)
                     else attachAll (fold (applyAttribute obj (attributePrefix options))
                                       (getAttributesForElement w el) (Element t as ks)) cs))"
        unfolding buildElement_object [OF assms(1)] Let_def by (rule if_not_P [OF False])
      also have "\<dots> =
              Inr (if hasWildcardForElement w el
                   then wildcardPassThrough (attributePrefix options) (textNodeKey options)
                          (lowerSet (map el_name (getChildElementsForElement w el))) obj path
                          (Element t as1 (ks @ cs))
                   else Element t as1 (ks @ cs))"
        by (simp add: Inr n1)
      finally have node': "node' =
                  (if hasWildcardForElement w el
                   then wildcardPassThrough (attributePrefix options) (textNodeKey options)
                          (lowerSet (map el_name (getChildElementsForElement w el))) obj path
                          (Element t as1 (ks @ cs))
                   else Element t as1 (ks @ cs))"
        using assms(2) by simp
      show ?thesis unfolding node' n1 using wp by simp
    qed
  qed
qed

lemma lowerSet_iff:
  "toLowerCase key \<notin> lowerSet names \<longleftrightarrow> (\<forall>n \<in> set names. toLowerCase n \<noteq> toLowerCase key)"
  unfolding lowerSet_def set_map image_iff by auto

text \<open>
  Claim C6.  \<open>lookupCI\<close> returns the value under the exact key when the object has it,
  and otherwise the value of the first key that equals the name after lowering both.
  In what \<open>buildElement\<close> makes of an object of a complex type: a declared attribute
  carries, under the name that the schema declares, the text of the value that \<open>lookupCI\<close>
  finds under the prefixed name, or the schema default when that finds nothing or
  \<open>null\<close>, and no attribute has a name that the schema does not declare; every child
  element is named after a declared child whose lookup found a value, or, under a
  wildcard only, after a key of the object that equals the name of no declared child
  even when case is ignored; and a declared child whose lookup finds a scalar is present
  under its declared name with that text.
\<close>

theorem case_insensitive_lookup_schema_casing:
  assumes "resolveComplexTypeForElement w el = Some ct"
      and "buildElement w options (Element t as ks) el (JObj obj) path = Inr node'"
  shows "(\<forall>name. lookupCI obj name =
            (if name \<in> fst ` set obj then map_of obj name
             else map_of (map (\<lambda>(k, v). (toLowerCase k, v)) obj) (toLowerCase name)))
       \<and> (\<forall>a \<in> set (getAttributesForElement w el).
             (\<forall>d \<in> set (getAttributesForElement w el). attr_name d = attr_name a \<longrightarrow> d = a)
             \<longrightarrow> map_of (attrs node') (attr_name a) =
                   (case lookupCI obj (attributePrefix options @ attr_name a) of
                      None \<Rightarrow> (case attr_default a of
                                 None \<Rightarrow> map_of as (attr_name a) | Some d \<Rightarrow> Some d)
                    | Some v \<Rightarrow>
                        if v = JNull
                        then (case attr_default a of
                                None \<Rightarrow> map_of as (attr_name a) | Some d \<Rightarrow> Some d)
                        else Some (jsString v)))
       \<and> (\<exists>as' new.
             node' = Element t as' (ks @ new)
             \<and> fst ` set as' \<subseteq> fst ` set as \<union> attr_name ` set (getAttributesForElement w el)
             \<and> (\<forall>n \<in> set new.
                   tagOf n = None
                   \<or> (\<exists>c \<in> set (getChildElementsForElement w el).
                         tagOf n = Some (el_name c)
                         \<and> lookupCI obj (el_name c) \<notin> {None, Some JNull})
                   \<or> (hasWildcardForElement w el
                       \<and> (\<exists>key \<in> set (Object_keys obj).
                             tagOf n = Some key
                             \<and> (\<forall>c \<in> set (getChildElementsForElement w el).
                                   toLowerCase (el_name c) \<noteq> toLowerCase key)))))
       \<and> (\<forall>c v. \<not> (hasTextContent ct \<and> objGet obj (textNodeKey options) \<noteq> Undefined)
                 \<and> c \<in> set (getChildElementsForElement w el)
                 \<and> lookupCI obj (el_name c) = Some v \<and> \<not> typeofObject v
             \<longrightarrow> Element (el_name c) [] [Text (jsString v)] \<in> set (kids node'))"
proof (intro conjI allI impI ballI)
  fix name
  show "lookupCI obj name =
            (if name \<in> fst ` set obj then map_of obj name
             else map_of (map (\<lambda>(k, v). (toLowerCase k, v)) obj) (toLowerCase name))"
    by (rule lookupCI_eq)
next
  fix a
  assume a: "a \<in> set (getAttributesForElement w el)"
    and u: "\<forall>d \<in> set (getAttributesForElement w el). attr_name d = attr_name a \<longrightarrow> d = a"
  obtain as' where f: "fold (applyAttribute obj (attributePrefix options))
                         (getAttributesForElement w el) (Element t as ks) = Element t as' ks"
    and m: "map_of as' (attr_name a) =
               (if a \<in> set (getAttributesForElement w el)
                then (case attributeWritten obj (attributePrefix options) a of
                        Some s \<Rightarrow> Some s
                      | None \<Rightarrow> map_of as (attr_name a))
                else map_of as (attr_name a))"
    using fold_applyAttribute_attrs [OF u] by blast
  have "attrs node' = as'" using buildElement_attrs [OF assms] f by simp
  then show "map_of (attrs node') (attr_name a) =
                   (case lookupCI obj (attributePrefix options @ attr_name a) of
                      None \<Rightarrow> (case attr_default a of
                                 None \<Rightarrow> map_of as (attr_name a) | Some d \<Rightarrow> Some d)
                    | Some v \<Rightarrow>
                        if v = JNull
                        then (case attr_default a of
                                None \<Rightarrow> map_of as (attr_name a) | Some d \<Rightarrow> Some d)
                        else Some (jsString v))"
    using m a by (simp add: attributeWritten_def split: option.splits)
next
  let ?good = "\<lambda>n. tagOf n = None
                   \<or> (\<exists>c \<in> set (getChildElementsForElement w el).
                         tagOf n = Some (el_name c)
                         \<and> lookupCI obj (el_name c) \<notin> {None, Some JNull})
                   \<or> (hasWildcardForElement w el
                       \<and> (\<exists>key \<in> set (Object_keys obj).
                             tagOf n = Some key
                             \<and> (\<forall>c \<in> set (getChildElementsForElement w el).
                                   toLowerCase (el_name c) \<noteq> toLowerCase key)))"
  show "\<exists>as' new.
             node' = Element t as' (ks @ new)
             \<and> fst ` set as' \<subseteq> fst ` set as \<union> attr_name ` set (getAttributesForElement w el)
             \<and> (\<forall>n \<in> set new. ?good n)"
  proof (cases "hasTextContent ct \<and> objGet obj (textNodeKey options) \<noteq> Undefined")
    case True
    obtain as1 where n1: "fold (applyAttribute obj (attributePrefix options))
                            (getAttributesForElement w el) (Element t as ks) = Element t as1 ks"
      and s1: "fst ` set as1 \<subseteq> fst ` set as \<union> attr_name ` set (getAttributesForElement w el)"
      using fold_applyAttribute_shape by blast
    have "node' = Element t as1
                    (ks @ [Text (stringOf (objGet obj (textNodeKey options)))])"
      using assms(2) True n1 by (auto simp: buildElement_object [OF assms(1)] Let_def)
    then show ?thesis using s1
      by - (rule exI [of _ as1],
            rule exI [of _ "[Text (stringOf (objGet obj (textNodeKey options)))]"], simp)
  next
    case False
    obtain as' cs ws where node': "node' = Element t as' (ks @ cs @ ws)"
      and s: "fst ` set as' \<subseteq> fst ` set as \<union> attr_name ` set (getAttributesForElement w el)"
      and cs: "collect (emittedFor w options obj path) (getChildElementsForElement w el) = Inr cs"
      and nw: "\<not> hasWildcardForElement w el \<longrightarrow> ws = []"
      and ws: "\<forall>n \<in> set ws. \<exists>key \<in> set (Object_keys obj).
                  tagOf n = Some key
                  \<and> toLowerCase key \<notin> lowerSet (map el_name (getChildElementsForElement w el))
                  \<and> key \<noteq> textNodeKey options
                  \<and> \<not> startsWith key (attributePrefix options)"
      using buildElement_children [OF assms(1) False assms(2)] by blast
    have gc: "\<forall>n \<in> set cs. ?good n"
    proof (rule collect_all [OF cs])
      fix x ys
      assume x: "x \<in> set (getChildElementsForElement w el)"
        and ys: "emittedFor w options obj path x = Inr ys"
      show "\<forall>y \<in> set ys. ?good y"
      proof
        fix y assume y: "y \<in> set ys"
        then have "ys \<noteq> []" by auto
        then have "lookupCI obj (el_name x) \<notin> {None, Some JNull}"
          using emittedFor_nonempty [OF ys] by simp
        moreover have "tagOf y = Some (el_name x)" using emittedFor_tags [OF ys] y by simp
        ultimately show "?good y" using x by blast
      qed
    qed
    have gw: "\<forall>n \<in> set ws. ?good n"
    proof
      fix n assume n: "n \<in> set ws"
      then have hw: "hasWildcardForElement w el" using nw by auto
      obtain key where key: "key \<in> set (Object_keys obj)" "tagOf n = Some key"
        "toLowerCase key \<notin> lowerSet (map el_name (getChildElementsForElement w el))"
        using ws n by blast
      have "\<forall>c \<in> set (getChildElementsForElement w el).
              toLowerCase (el_name c) \<noteq> toLowerCase key"
        using key(3) by (simp add: lowerSet_iff)
      then have "\<exists>key \<in> set (Object_keys obj).
                   tagOf n = Some key
                   \<and> (\<forall>c \<in> set (getChildElementsForElement w el).
                         toLowerCase (el_name c) \<noteq> toLowerCase key)"
        using key(1,2) by - (rule bexI [of _ key], simp_all)
      then show "?good n" using hw by simp
    qed
    have "\<forall>n \<in> set (cs @ ws). ?good n" using gc gw by auto
    then show ?thesis using node' s
      by - (rule exI [of _ as'], rule exI [of _ "cs @ ws"], simp)
  qed
next
  fix c v
  assume a: "\<not> (hasTextContent ct \<and> objGet obj (textNodeKey options) \<noteq> Undefined)
             \<and> c \<in> set (getChildElementsForElement w el)
             \<and> lookupCI obj (el_name c) = Some v \<and> \<not> typeofObject v"
  obtain as' cs ws where node': "node' = Element t as' (ks @ cs @ ws)"
    and cs: "collect (emittedFor w options obj path) (getChildElementsForElement w el) = Inr cs"
    using buildElement_children [OF assms(1) _ assms(2)] a by blast
  obtain pre ys post where ys: "emittedFor w options obj path c = Inr ys"
    and split: "cs = pre @ ys @ post"
    using collect_member [OF cs] a by blast
  have "ys = [Element (el_name c) [] [Text (jsString v)]]"
    using ys emittedFor_scalar [of obj c v w options path] a by simp
  then show "Element (el_name c) [] [Text (jsString v)] \<in> set (kids node')"
    using node' split by simp
qed

lemma cnpjModel_facts:
  "lookupElement cnpjModel (rootElement cnpjModel) = Some prestadorElement"
  "rootElement cnpjModel = ''prestador''"
  "resolveComplexTypeForElement cnpjModel prestadorElement = Some prestadorT"
  "getChildElementsForElement cnpjModel prestadorElement = [leaf ''CNPJ'']"
  "getAttributesForElement cnpjModel prestadorElement = []"
  "hasWildcardForElement cnpjModel prestadorElement = False"
  "hasTextContent prestadorT = False"
  by (simp_all add: walker_unfold cnpjModel_def prestadorElement_def typed_def
        prestadorT_def resolveAllElements.simps resolveAllAttributes.simps
        resolveHasWildcard.simps)

lemma cnpj_lookups:
  "lookupCI upperInput ''CNPJ'' = Some (JStr ''1'')"
  "lookupCI lowerInput ''CNPJ'' = Some (JStr ''1'')"
  "lookupCI upperInput ''prestador'' = None"
  "lookupCI lowerInput ''prestador'' = None"
  by (simp_all add: lookupCI_eq upperInput_def lowerInput_def toLowerCase_def lowerChar_def)

lemma cnpj_builds:
  "buildElement cnpjModel defaultOptions (Element ''prestador'' [] []) prestadorElement
     (JObj upperInput) ''$.prestador''
   = Inr (Element ''prestador'' [] [Element ''CNPJ'' [] [Text ''1'']])"
  "buildElement cnpjModel defaultOptions (Element ''prestador'' [] []) prestadorElement
     (JObj lowerInput) ''$.prestador''
   = Inr (Element ''prestador'' [] [Element ''CNPJ'' [] [Text ''1'']])"
  by (simp_all add: buildElement_object [OF cnpjModel_facts(3)] cnpjModel_facts leaf_facts
        cnpj_lookups emittedFor_scalar typeofObject_simps)

lemma envelopeModel_facts:
  "lookupElement envelopeModel (rootElement envelopeModel) = Some envelopeElement"
  "rootElement envelopeModel = ''envelope''"
  "resolveComplexTypeForElement envelopeModel envelopeElement = Some envelopeT"
  "getChildElementsForElement envelopeModel envelopeElement = [leaf ''Header'']"
  "getAttributesForElement envelopeModel envelopeElement = [idAttr]"
  "hasWildcardForElement envelopeModel envelopeElement = True"
  "hasTextContent envelopeT = False"
  "resolveComplexTypeForElement envelopeModel (leaf n) = None"
  by (simp_all add: walker_unfold envelopeModel_def envelopeElement_def typed_def
        envelopeT_def leaf_def resolveAllElements.simps resolveAllAttributes.simps
        resolveHasWildcard.simps)

lemma envelope_lookups:
  "lookupCI envelopeInput ''@id'' = Some (JStr ''7'')"
  "lookupCI envelopeInput ''Header'' = Some (JStr ''h'')"
  "lookupCI envelopeInput ''envelope'' = None"
  by (simp_all add: lookupCI_eq envelopeInput_def toLowerCase_def lowerChar_def)

lemma envelope_wildcard:
  "wildcardPassThrough ''@'' ''#text'' (lowerSet [''Header'']) envelopeInput ''$.envelope''
     (Element ''envelope'' [(''id'', ''7'')] [Element ''Header'' [] [Text ''h'']])
   = Element ''envelope'' [(''id'', ''7'')]
       [Element ''Header'' [] [Text ''h''], Element ''Extra'' [] [Text ''x'']]"
  by (simp add: wildcardPassThrough_def envelopeInput_def Object_keys_def startsWith_def
        lowerSet_def toLowerCase_def lowerChar_def ownProp_def Array_isArray_def
        buildWildcardValue.simps [of _ "JStr ''x''"] typeofObject_def node_ele_def)

lemma envelope_builds:
  "buildElement envelopeModel defaultOptions (Element ''envelope'' [] []) envelopeElement
     (JObj envelopeInput) ''$.envelope''
   = Inr (Element ''envelope'' [(''id'', ''7'')]
            [Element ''Header'' [] [Text ''h''], Element ''Extra'' [] [Text ''x'']])"
  by (simp add: buildElement_object [OF envelopeModel_facts(3)] envelopeModel_facts leaf_facts
        envelope_lookups emittedFor_scalar typeofObject_simps defaultOptions_facts
        applyAttribute_def idAttr_def envelope_wildcard)

theorem case_insensitive_lookup_schema_casing_witness:
  "resolveComplexTypeForElement cnpjModel prestadorElement = Some prestadorT
   \<and> buildElement cnpjModel defaultOptions (Element ''prestador'' [] []) prestadorElement
         (JObj lowerInput) ''$.prestador''
       = Inr (Element ''prestador'' [] [Element ''CNPJ'' [] [Text ''1'']])
   \<and> lookupCI lowerInput ''CNPJ'' = Some (JStr ''1'')
   \<and> Element ''CNPJ'' [] [Text ''1'']
       \<in> set (kids (Element ''prestador'' [] [Element ''CNPJ'' [] [Text ''1'']]))
   \<and> buildXml upperInput cnpjModel defaultOptions
       = Inr (Element ''prestador'' [] [Element ''CNPJ'' [] [Text ''1'']])
   \<and> buildXml lowerInput cnpjModel defaultOptions
       = Inr (Element ''prestador'' [] [Element ''CNPJ'' [] [Text ''1'']])
   \<and> resolveComplexTypeForElement envelopeModel envelopeElement = Some envelopeT
   \<and> hasWildcardForElement envelopeModel envelopeElement
   \<and> idAttr \<in> set (getAttributesForElement envelopeModel envelopeElement)
   \<and> lookupCI envelopeInput (''@'' @ attr_name idAttr) = Some (JStr ''7'')
   \<and> buildXml envelopeInput envelopeModel defaultOptions
       = Inr (Element ''envelope'' [(''id'', ''7'')]
                [Element ''Header'' [] [Text ''h''], Element ''Extra'' [] [Text ''x'']])
   \<and> map_of (attrs (Element ''envelope'' [(''id'', ''7'')]
                      [Element ''Header'' [] [Text ''h''], Element ''Extra'' [] [Text ''x'']]))
         (attr_name idAttr) = Some ''7''"
proof -
  have h1: "resolveComplexTypeForElement cnpjModel prestadorElement = Some prestadorT"
    by (rule cnpjModel_facts)
  note inst = case_insensitive_lookup_schema_casing [OF h1 cnpj_builds(2)]
  have l: "lookupCI lowerInput ''CNPJ'' = Some (JStr ''1'')"
    using inst [THEN conjunct1, rule_format, of "''CNPJ''"]
    by (simp add: lowerInput_def toLowerCase_def lowerChar_def)
  have c: "\<not> (hasTextContent prestadorT \<and> objGet lowerInput (textNodeKey defaultOptions) \<noteq> Undefined)
           \<and> leaf ''CNPJ'' \<in> set (getChildElementsForElement cnpjModel prestadorElement)
           \<and> lookupCI lowerInput (el_name (leaf ''CNPJ'')) = Some (JStr ''1'')
           \<and> \<not> typeofObject (JStr ''1'')"
    using l by (simp add: cnpjModel_facts leaf_facts typeofObject_simps)
  have m: "Element ''CNPJ'' [] [Text ''1'']
       \<in> set (kids (Element ''prestador'' [] [Element ''CNPJ'' [] [Text ''1'']]))"
    using inst [THEN conjunct2, THEN conjunct2, THEN conjunct2, rule_format, OF c]
    by (simp add: leaf_facts)
  have b: "buildXml upperInput cnpjModel defaultOptions
             = Inr (Element ''prestador'' [] [Element ''CNPJ'' [] [Text ''1'']])"
          "buildXml lowerInput cnpjModel defaultOptions
             = Inr (Element ''prestador'' [] [Element ''CNPJ'' [] [Text ''1'']])"
    using cnpj_builds
    by (simp_all add: buildXml_found [OF cnpjModel_facts(1)] cnpjModel_facts(2) cnpj_lookups
          truthy_def defaultOptions_facts node_ele_def)
  have h2: "resolveComplexTypeForElement envelopeModel envelopeElement = Some envelopeT"
    by (rule envelopeModel_facts)
  note einst = case_insensitive_lookup_schema_casing [OF h2 envelope_builds]
  have ia: "idAttr \<in> set (getAttributesForElement envelopeModel envelopeElement)"
    by (simp add: envelopeModel_facts)
  have iu: "\<forall>d \<in> set (getAttributesForElement envelopeModel envelopeElement).
              attr_name d = attr_name idAttr \<longrightarrow> d = idAttr"
    by (simp add: envelopeModel_facts)
  have el: "lookupCI envelopeInput (''@'' @ attr_name idAttr) = Some (JStr ''7'')"
    using einst [THEN conjunct1, rule_format, of "''@'' @ attr_name idAttr"]
    by (simp add: envelopeInput_def idAttr_def toLowerCase_def lowerChar_def)
  have am: "map_of (attrs (Element ''envelope'' [(''id'', ''7'')]
                      [Element ''Header'' [] [Text ''h''], Element ''Extra'' [] [Text ''x'']]))
              (attr_name idAttr) = Some ''7''"
    using einst [THEN conjunct2, THEN conjunct1, THEN bspec, OF ia, THEN mp, OF iu] el
    by (simp add: defaultOptions_facts)
  have eb: "buildXml envelopeInput envelopeModel defaultOptions
       = Inr (Element ''envelope'' [(''id'', ''7'')]
                [Element ''Header'' [] [Text ''h''], Element ''Extra'' [] [Text ''x'']])"
    using envelope_builds
    by (simp add: buildXml_found [OF envelopeModel_facts(1)] envelopeModel_facts(2)
          envelope_lookups truthy_def defaultOptions_facts node_ele_def)
  have hw: "hasWildcardForElement envelopeModel envelopeElement"
    by (simp add: envelopeModel_facts)
  show ?thesis using h1 cnpj_builds(2) l m b h2 hw ia el eb am by blast
qed

section \<open>Validator and builder: a required attribute given as null\<close>

lemma map_of_replace:
  "map_of (map (\<lambda>(k, v). if k = key then (k, x) else (k, v)) obj) k' =
     (if k' = key then map_option (\<lambda>v. x) (map_of obj key) else map_of obj k')"
  by (induction obj) auto

lemma getMember_replace:
  "getMember (Value (JObj (map (\<lambda>(k, v). if k = key then (k, x) else (k, v)) obj))) k' =
     (if k' = key then (case map_of obj key of None \<Rightarrow> inherited key | Some v \<Rightarrow> Value x)
      else getMember (Value (JObj obj)) k')"
  by (simp add: getMember_def objGet_def asJsonObject_def map_of_replace split: option.splits)

lemma keysOf_replace:
  "keysOf (Value (JObj (map (\<lambda>(k, v). if k = key then (k, x) else (k, v)) obj)))
     = keysOf (Value (JObj obj))"
  by (simp add: keysOf_def Object_keys_def asJsonObject_def comp_def case_prod_beta)

lemma jobj_is_object:
  "\<not> isArrayVal (Value (JObj obj))" "typeofObjectVal (Value (JObj obj))"
  "Value (JObj obj) \<noteq> Value JNull"
  by (simp_all add: isArrayVal_def typeofObjectVal_def Array_isArray_def typeofObject_def)

text \<open>
  Claim C10.  Let the object own the prefixed key of a required attribute with the
  value \<open>null\<close>.  The loop over the required attributes, which reports the attributes
  whose key reads \<open>undefined\<close>, does not report it; \<open>validateElement\<close> finds exactly what
  it finds when the key holds a string instead, unless the key is also the name of a
  declared child; and \<open>validateJson\<close> on such a root object returns without throwing
  exactly when no other required attribute is absent, no declared child has an issue
  and no key is unknown.  The builder, which finds the same key by its exact match,
  writes for this attribute the schema default when there is one and nothing
  otherwise, both in \<open>buildElement\<close> and in the root element that \<open>buildXml\<close> returns.
\<close>

theorem required_attribute_null_passes:
  assumes "resolveComplexTypeForElement w el = Some ct"
      and "a \<in> set (getAttributesForElement w el)"
      and "attr_use a = Required"
      and "map_of obj (ap @ attr_name a) = Some JNull"
  shows "\<lparr>issue_path = path @ ''.'' @ ap @ attr_name a, issue_message = msgAttrMissing a\<rparr>
           \<notin> set (attributeIssues w ap el (Value (JObj obj)) path)
       \<and> validateElement w ap tk el (Value (JObj obj)) path [] =
           attributeIssues w ap el (Value (JObj obj)) path
           @ concat (map (childIssues w ap tk (Value (JObj obj)) path)
                       (getChildElementsForElement w el))
           @ unknownKeyIssues w ap tk el (Value (JObj obj)) path
       \<and> (ap @ attr_name a \<notin> el_name ` set (getChildElementsForElement w el) \<longrightarrow>
            validateElement w ap tk el
              (Value (JObj (map (\<lambda>(k, v). if k = ap @ attr_name a then (k, JStr s) else (k, v))
                              obj)))
              path []
            = validateElement w ap tk el (Value (JObj obj)) path [])
       \<and> (lookupElement w (rootElement w) = Some el \<and> objGet obj (rootElement w) = Undefined
            \<longrightarrow> (validateJson obj w ap tk = Inr () \<longleftrightarrow>
                   (\<forall>d \<in> set (getAttributesForElement w el).
                      d \<noteq> a \<and> attr_use d = Required
                      \<longrightarrow> getMember (Value (JObj obj)) (ap @ attr_name d) \<noteq> Undefined)
                   \<and> (\<forall>c \<in> set (getChildElementsForElement w el).
                         childIssues w ap tk (Value (JObj obj)) (''$.'' @ rootElement w) c = [])
                   \<and> unknownKeyIssues w ap tk el (Value (JObj obj)) (''$.'' @ rootElement w)
                       = []))
       \<and> (ap = attributePrefix options
            \<and> (\<forall>d \<in> set (getAttributesForElement w el). attr_name d = attr_name a \<longrightarrow> d = a)
            \<and> buildElement w options (Element t as ks) el (JObj obj) path' = Inr node'
            \<longrightarrow> map_of (attrs node') (attr_name a) =
                  (case attr_default a of None \<Rightarrow> map_of as (attr_name a) | Some d \<Rightarrow> Some d))
       \<and> (ap = attributePrefix options
            \<and> (\<forall>d \<in> set (getAttributesForElement w el). attr_name d = attr_name a \<longrightarrow> d = a)
            \<and> lookupElement w (rootElement w) = Some el
            \<and> lookupCI obj (rootElement w) = None
            \<and> \<not> truthy (opt_targetNamespace options)
            \<and> buildXml obj w options = Inr root
            \<longrightarrow> map_of (attrs root) (attr_name a) = attr_default a)"
proof (intro conjI impI)
  have present: "getMember (Value (JObj obj)) (ap @ attr_name a) = Value JNull"
    using assms(4) by (simp add: getMember_def objGet_def asJsonObject_def)
  show "\<lparr>issue_path = path @ ''.'' @ ap @ attr_name a, issue_message = msgAttrMissing a\<rparr>
           \<notin> set (attributeIssues w ap el (Value (JObj obj)) path)"
    using present by (auto simp: attributeIssues_def)
  note object = validateElement_object [OF assms(1) jobj_is_object]
  show whole: "validateElement w ap tk el (Value (JObj obj)) path [] =
           attributeIssues w ap el (Value (JObj obj)) path
           @ concat (map (childIssues w ap tk (Value (JObj obj)) path)
                       (getChildElementsForElement w el))
           @ unknownKeyIssues w ap tk el (Value (JObj obj)) path" for path
    by (rule object)
  let ?key = "ap @ attr_name a"
  let ?obj' = "map (\<lambda>(k, v). if k = ?key then (k, JStr s) else (k, v)) obj"
  show "validateElement w ap tk el (Value (JObj ?obj')) path []
            = validateElement w ap tk el (Value (JObj obj)) path []"
    if nochild: "?key \<notin> el_name ` set (getChildElementsForElement w el)"
  proof -
    have und: "getMember (Value (JObj ?obj')) k = Undefined
                 \<longleftrightarrow> getMember (Value (JObj obj)) k = Undefined" for k
      using assms(4) present by (simp add: getMember_replace)
    have a1: "attributeIssues w ap el (Value (JObj ?obj')) path
                = attributeIssues w ap el (Value (JObj obj)) path"
      by (simp add: attributeIssues_def und)
    have c1: "childIssues w ap tk (Value (JObj ?obj')) path c
                = childIssues w ap tk (Value (JObj obj)) path c"
      if "c \<in> set (getChildElementsForElement w el)" for c
    proof -
      have "el_name c \<noteq> ?key" using that nochild by (auto simp: image_iff)
      then have "getMember (Value (JObj ?obj')) (el_name c)
                   = getMember (Value (JObj obj)) (el_name c)"
        by (simp add: getMember_replace)
      then show ?thesis by (simp add: childIssues_def)
    qed
    have u1: "unknownKeyIssues w ap tk el (Value (JObj ?obj')) path
                = unknownKeyIssues w ap tk el (Value (JObj obj)) path"
      by (simp add: unknownKeyIssues_def keysOf_replace)
    have m1: "map (childIssues w ap tk (Value (JObj ?obj')) path) (getChildElementsForElement w el)
            = map (childIssues w ap tk (Value (JObj obj)) path) (getChildElementsForElement w el)"
      using c1 by simp
    show ?thesis
      unfolding validateElement_object [OF assms(1) jobj_is_object] a1 u1 m1 by (rule refl)
  qed
  show "validateJson obj w ap tk = Inr () \<longleftrightarrow>
                   (\<forall>d \<in> set (getAttributesForElement w el).
                      d \<noteq> a \<and> attr_use d = Required
                      \<longrightarrow> getMember (Value (JObj obj)) (ap @ attr_name d) \<noteq> Undefined)
                   \<and> (\<forall>c \<in> set (getChildElementsForElement w el).
                         childIssues w ap tk (Value (JObj obj)) (''$.'' @ rootElement w) c = [])
                   \<and> unknownKeyIssues w ap tk el (Value (JObj obj)) (''$.'' @ rootElement w)
                       = []"
    if root: "lookupElement w (rootElement w) = Some el \<and> objGet obj (rootElement w) = Undefined"
  proof -
    have "validateJson obj w ap tk =
            (if validateElement w ap tk el (Value (JObj obj)) (''$.'' @ rootElement w) [] = []
             then Inr ()
             else Inl (XsdValidationError
                         (validateElement w ap tk el (Value (JObj obj))
                            (''$.'' @ rootElement w) [])))"
      using root by (simp add: validateJson_def Let_def objGet_def)
    then have "validateJson obj w ap tk = Inr () \<longleftrightarrow>
                 validateElement w ap tk el (Value (JObj obj)) (''$.'' @ rootElement w) [] = []"
      by simp
    moreover have "attributeIssues w ap el (Value (JObj obj)) (''$.'' @ rootElement w) = [] \<longleftrightarrow>
                     (\<forall>d \<in> set (getAttributesForElement w el).
                        d \<noteq> a \<and> attr_use d = Required
                        \<longrightarrow> getMember (Value (JObj obj)) (ap @ attr_name d) \<noteq> Undefined)"
      using present by (auto simp: attributeIssues_def filter_empty_conv)
    ultimately show ?thesis unfolding whole by simp
  qed
  show b: "map_of (attrs node') (attr_name a) =
                  (case attr_default a of None \<Rightarrow> map_of as (attr_name a) | Some d \<Rightarrow> Some d)"
    if h: "ap = attributePrefix options
            \<and> (\<forall>d \<in> set (getAttributesForElement w el). attr_name d = attr_name a \<longrightarrow> d = a)
            \<and> buildElement w options (Element t as ks) el (JObj obj) path' = Inr node'"
    for t as ks path' node'
  proof -
    have u: "\<forall>d \<in> set (getAttributesForElement w el). attr_name d = attr_name a \<longrightarrow> d = a"
      and be: "buildElement w options (Element t as ks) el (JObj obj) path' = Inr node'"
      and ap: "ap = attributePrefix options"
      using h by simp_all
    have lk: "lookupCI obj (attributePrefix options @ attr_name a) = Some JNull"
      using assms(4) ap
      by (auto simp: lookupCI_eq dest: map_of_SomeD intro: rev_image_eqI)
    have wr: "attributeWritten obj (attributePrefix options) a = attr_default a"
      by (simp add: attributeWritten_def lk)
    obtain as' where f: "fold (applyAttribute obj (attributePrefix options))
                           (getAttributesForElement w el) (Element t as ks) = Element t as' ks"
      and m: "map_of as' (attr_name a) =
               (if a \<in> set (getAttributesForElement w el)
                then (case attributeWritten obj (attributePrefix options) a of
                        Some s \<Rightarrow> Some s
                      | None \<Rightarrow> map_of as (attr_name a))
                else map_of as (attr_name a))"
      using fold_applyAttribute_attrs [OF u] by blast
    have "attrs node' = as'" using buildElement_attrs [OF assms(1) be] f by simp
    then show ?thesis using m assms(2) wr by (simp split: option.splits)
  qed
  show "map_of (attrs root) (attr_name a) = attr_default a"
    if h: "ap = attributePrefix options
            \<and> (\<forall>d \<in> set (getAttributesForElement w el). attr_name d = attr_name a \<longrightarrow> d = a)
            \<and> lookupElement w (rootElement w) = Some el
            \<and> lookupCI obj (rootElement w) = None
            \<and> \<not> truthy (opt_targetNamespace options)
            \<and> buildXml obj w options = Inr root"
  proof -
    have "buildElement w options (Element (rootElement w) [] []) el (JObj obj)
            (''$.'' @ rootElement w) = Inr root"
      using h buildXml_found [of w el obj options] by (simp add: node_ele_def)
    then have "map_of (attrs root) (attr_name a) =
                 (case attr_default a of None \<Rightarrow> map_of [] (attr_name a) | Some d \<Rightarrow> Some d)"
      using b [of "rootElement w" "[]" "[]" "''$.'' @ rootElement w" root] h by simp
    then show ?thesis by (simp split: option.splits)
  qed
qed

lemma nullIdPerson_builds:
  "buildElement personModel defaultOptions (Element ''person'' [] []) personElement
     (JObj nullIdPerson) ''$.person''
   = Inr (Element ''person'' [] [Element ''name'' [] [Text ''Ann'']])"
proof -
  have lk: "lookupCI nullIdPerson ''@id'' = Some JNull"
    "lookupCI nullIdPerson ''name'' = Some (JStr ''Ann'')"
    "lookupCI nullIdPerson ''age'' = None"
    by (simp_all add: lookupCI_eq nullIdPerson_def toLowerCase_def lowerChar_def)
  have ht: "hasTextContent personT = False" by (simp add: personT_def)
  show ?thesis
    by (simp add: buildElement_object [OF personModel_facts(2)] personModel_facts leaf_facts
          lk emittedFor_scalar emittedFor_null typeofObject_simps defaultOptions_facts
          applyAttribute_def idAttr_def ht)
qed

theorem required_attribute_null_passes_witness:
  "resolveComplexTypeForElement personModel personElement = Some personT
   \<and> idAttr \<in> set (getAttributesForElement personModel personElement)
   \<and> attr_use idAttr = Required
   \<and> map_of nullIdPerson (''@'' @ attr_name idAttr) = Some JNull
   \<and> lookupElement personModel (rootElement personModel) = Some personElement
   \<and> validateJson nullIdPerson personModel ''@'' ''#text'' = Inr ()
   \<and> buildXml nullIdPerson personModel defaultOptions
       = Inr (Element ''person'' [] [Element ''name'' [] [Text ''Ann'']])
   \<and> map_of (attrs (Element ''person'' [] [Element ''name'' [] [Text ''Ann'']]))
         (attr_name idAttr) = None
   \<and> validateElement personModel ''@'' ''#text'' personElement
         (Value (JObj [(''@id'', JStr ''p1''), (''name'', JStr ''Ann'')])) ''$.person'' []
       = validateElement personModel ''@'' ''#text'' personElement
           (Value (JObj nullIdPerson)) ''$.person'' []"
proof -
  have h1: "resolveComplexTypeForElement personModel personElement = Some personT"
    by (rule personModel_facts)
  have h2: "idAttr \<in> set (getAttributesForElement personModel personElement)"
    by (simp add: personModel_facts)
  have h3: "attr_use idAttr = Required" by (simp add: idAttr_def)
  have h4: "map_of nullIdPerson (''@'' @ attr_name idAttr) = Some JNull"
    by (simp add: nullIdPerson_def idAttr_def)
  note inst = required_attribute_null_passes [OF h1 h2 h3 h4,
      where tk = "''#text''" and options = defaultOptions and s = "''p1''"
        and path = "''$.person''" and root = "Element ''person'' [] [Element ''name'' [] [Text ''Ann'']]"]
  note same = inst [THEN conjunct2, THEN conjunct2, THEN conjunct1]
  note valid = inst [THEN conjunct2, THEN conjunct2, THEN conjunct2, THEN conjunct1]
  note built = inst [THEN conjunct2, THEN conjunct2, THEN conjunct2, THEN conjunct2,
      THEN conjunct2]
  have rp: "rootElement personModel = ''person''" by (simp add: personModel_def)
  have nm: "idAttr = \<lparr>attr_name = ''id'', attr_type = ''xs:string'', attr_use = Required,
                       attr_default = None, attr_fixed = None\<rparr>"
    by (simp add: idAttr_def)
  have an: "attr_name idAttr = ''id''" "attr_default idAttr = None" by (simp_all add: idAttr_def)
  have str: "validateElement personModel ''@'' ''#text'' (leaf ''name'') (Value (JStr ''Ann'')) p [] = []"
    for p
    by (simp add: validateElement_other(2) personModel_facts jsval_unfold)
  have ci: "\<forall>c \<in> set (getChildElementsForElement personModel personElement).
              childIssues personModel ''@'' ''#text'' (Value (JObj nullIdPerson))
                (''$.'' @ rootElement personModel) c = []"
    by (simp add: personModel_facts childIssues_def nullIdPerson_def jsval_unfold leaf_facts str)
  have uk: "unknownKeyIssues personModel ''@'' ''#text'' personElement
              (Value (JObj nullIdPerson)) (''$.'' @ rootElement personModel) = []"
    by (simp add: unknownKeyIssues_def unknownKey_def personModel_facts nullIdPerson_def
          jsval_unfold leaf_facts an)
  have ur: "objGet nullIdPerson (rootElement personModel) = Undefined"
    by (simp add: rp nullIdPerson_def objGet_def inherited_def prototypeFunctions_def)
  have v: "validateJson nullIdPerson personModel ''@'' ''#text'' = Inr ()"
    using valid personModel_facts(1) ur ci uk by (simp add: personModel_facts)
  have b: "buildXml nullIdPerson personModel defaultOptions
             = Inr (Element ''person'' [] [Element ''name'' [] [Text ''Ann'']])"
    using nullIdPerson_builds
    by (simp add: buildXml_found [OF personModel_facts(1)] rp truthy_def defaultOptions_facts
          node_ele_def lookupCI_eq nullIdPerson_def toLowerCase_def lowerChar_def)
  have lr: "lookupCI nullIdPerson (rootElement personModel) = None"
    by (simp add: rp lookupCI_eq nullIdPerson_def toLowerCase_def lowerChar_def)
  have m: "map_of (attrs (Element ''person'' [] [Element ''name'' [] [Text ''Ann'']]))
             (attr_name idAttr) = None"
    using built b lr personModel_facts(1)
    by (simp add: defaultOptions_facts personModel_facts truthy_def an)
  have nc: "''@'' @ attr_name idAttr
              \<notin> el_name ` set (getChildElementsForElement personModel personElement)"
    by (simp add: personModel_facts leaf_facts an)
  have e: "validateElement personModel ''@'' ''#text'' personElement
         (Value (JObj [(''@id'', JStr ''p1''), (''name'', JStr ''Ann'')])) ''$.person'' []
       = validateElement personModel ''@'' ''#text'' personElement
           (Value (JObj nullIdPerson)) ''$.person'' []"
    using same [THEN mp, OF nc] by (simp add: nullIdPerson_def an)
  show ?thesis using h1 h2 h3 h4 personModel_facts(1) v b m e by simp
qed

section \<open>Builder: when the mapping error is raised\<close>

lemma collect_Inl_iff:
  "(\<exists>e. collect f xs = Inl e) \<longleftrightarrow> (\<exists>x \<in> set xs. \<exists>e. f x = Inl e)"
  by (induction xs) (auto split: sum.splits)

lemma collect_Inl_source:
  "collect f xs = Inl e \<Longrightarrow> \<exists>x \<in> set xs. f x = Inl e"
  by (induction xs) (auto split: sum.splits)

lemma single_Inl_iff: "single r = Inl e \<longleftrightarrow> r = Inl e"
  by (cases r) (simp_all add: single_def)

lemma emittedFor_Inl_iff:
  "(\<exists>e. emittedFor w options obj path c = Inl e) \<longleftrightarrow>
     (if lookupCI obj (el_name c) = None \<or> lookupCI obj (el_name c) = Some JNull then False
      else if Array_isArray (the (lookupCI obj (el_name c)))
      then (\<exists>(i, item) \<in> set (enumerate 0 (arrayItems (the (lookupCI obj (el_name c))))).
              \<exists>e. buildElement w options (node_ele (el_name c)) c item
                     (path @ ''.'' @ el_name c @ ''['' @ digits i @ '']'') = Inl e)
      else (\<exists>e. buildElement w options (node_ele (el_name c)) c (the (lookupCI obj (el_name c)))
                  (path @ ''.'' @ el_name c) = Inl e))"
  unfolding emittedFor_def Let_def
  by (auto simp: collect_Inl_iff single_Inl_iff split: prod.splits)

lemma emittedFor_Inl_source:
  assumes "emittedFor w options obj path c = Inl e"
  shows "lookupCI obj (el_name c) \<noteq> None \<and> lookupCI obj (el_name c) \<noteq> Some JNull
         \<and> (if Array_isArray (the (lookupCI obj (el_name c)))
            then (\<exists>(i, item) \<in> set (enumerate 0 (arrayItems (the (lookupCI obj (el_name c))))).
                    buildElement w options (node_ele (el_name c)) c item
                      (path @ ''.'' @ el_name c @ ''['' @ digits i @ '']'') = Inl e)
            else buildElement w options (node_ele (el_name c)) c (the (lookupCI obj (el_name c)))
                   (path @ ''.'' @ el_name c) = Inl e)"
proof -
  have present: "lookupCI obj (el_name c) \<noteq> None \<and> lookupCI obj (el_name c) \<noteq> Some JNull"
    using assms by (auto simp: emittedFor_def Let_def split: if_splits)
  show ?thesis
  proof (cases "Array_isArray (the (lookupCI obj (el_name c)))")
    case True
    then have "collect (\<lambda>(i, item).
                 single (buildElement w options (node_ele (el_name c)) c item
                           (path @ ''.'' @ el_name c @ ''['' @ digits i @ '']'')))
               (enumerate 0 (arrayItems (the (lookupCI obj (el_name c))))) = Inl e"
      using assms present by (simp add: emittedFor_def)
    from collect_Inl_source [OF this]
    obtain x where x: "x \<in> set (enumerate 0 (arrayItems (the (lookupCI obj (el_name c)))))"
      and f: "(case x of (i, item) \<Rightarrow>
                 single (buildElement w options (node_ele (el_name c)) c item
                           (path @ ''.'' @ el_name c @ ''['' @ digits i @ '']''))) = Inl e"
      by blast
    obtain i item where xi: "x = (i, item)" by (cases x)
    have "buildElement w options (node_ele (el_name c)) c item
            (path @ ''.'' @ el_name c @ ''['' @ digits i @ '']'') = Inl e"
      using f xi by (simp add: single_Inl_iff)
    then have "\<exists>(i, item) \<in> set (enumerate 0 (arrayItems (the (lookupCI obj (el_name c))))).
                    buildElement w options (node_ele (el_name c)) c item
                      (path @ ''.'' @ el_name c @ ''['' @ digits i @ '']'') = Inl e"
      using x xi by blast
    then show ?thesis using present True by simp
  next
    case False
    then have "buildElement w options (node_ele (el_name c)) c (the (lookupCI obj (el_name c)))
                   (path @ ''.'' @ el_name c) = Inl e"
      using assms present by (simp add: emittedFor_def single_Inl_iff)
    then show ?thesis using present False by simp
  qed
qed

lemma buildElement_object_Inl_iff:
  assumes "resolveComplexTypeForElement w el = Some ct"
      and "\<not> (hasTextContent ct \<and> objGet obj (textNodeKey options) \<noteq> Undefined)"
  shows "(\<exists>e. buildElement w options node el (JObj obj) path = Inl e) \<longleftrightarrow>
           (\<exists>c \<in> set (getChildElementsForElement w el).
              \<exists>e. emittedFor w options obj path c = Inl e)"
proof -
  have "(\<exists>e. buildElement w options node el (JObj obj) path = Inl e) \<longleftrightarrow>
          (\<exists>e. collect (emittedFor w options obj path) (getChildElementsForElement w el) = Inl e)"
    using assms(2) unfolding buildElement_object [OF assms(1)] Let_def
    by (cases "collect (emittedFor w options obj path) (getChildElementsForElement w el)") auto
  then show ?thesis by (simp add: collect_Inl_iff)
qed

lemma typeofObject_cases:
  assumes "\<not> Array_isArray val" and "val \<noteq> JNull" and "typeofObject val"
  obtains obj where "val = JObj obj"
  using assms by (cases val) (auto simp: typeofObject_def Array_isArray_def)

text \<open>\<open>buildElement\<close> throws exactly when an array is handed to it somewhere on the way.\<close>

lemma buildElement_fails_iff:
  "(\<exists>e. buildElement w options node el val path = Inl e) \<longleftrightarrow> arrayReaches w options el val"
proof (induction w options el val arbitrary: node path rule: arrayReaches.induct)
  case (1 w options el val)
  show ?case
  proof (cases "Array_isArray val")
    case True
    then show ?thesis
      by (simp add: buildElement_array arrayReaches.simps [of w options el val])
  next
    case narr: False
    show ?thesis
    proof (cases "val = JNull \<or> \<not> typeofObject val")
      case True
      then show ?thesis using narr
        by (auto simp: buildElement_null buildElement_scalar arrayReaches.simps [of w options el val])
    next
      case nn: False
      then obtain obj where val: "val = JObj obj"
        using narr typeofObject_cases [of val] by auto
      have aobj: "asJsonObject val = obj" using val by (simp add: asJsonObject_def)
      show ?thesis
      proof (cases "resolveComplexTypeForElement w el")
        case None
        then show ?thesis using narr nn val
          by (simp add: buildElement_simple_object arrayReaches.simps [of w options el "JObj obj"])
      next
        case (Some ct)
        show ?thesis
        proof (cases "hasTextContent ct \<and> objGet obj (textNodeKey options) \<noteq> Undefined")
          case True
          then show ?thesis using narr nn val Some
            by (auto simp: buildElement_object [OF Some] Let_def asJsonObject_def
                  arrayReaches.simps [of w options el "JObj obj"])
        next
          case ntext: False
          have ntext': "\<not> (hasTextContent ct
                            \<and> objGet (asJsonObject val) (textNodeKey options) \<noteq> Undefined)"
            using ntext aobj by simp
          have child: "(\<exists>e. emittedFor w options obj path c = Inl e) \<longleftrightarrow>
               (if lookupCI obj (el_name c) = None \<or> lookupCI obj (el_name c) = Some JNull
                then False
                else if Array_isArray (the (lookupCI obj (el_name c)))
                then (\<exists>item \<in> set (arrayItems (the (lookupCI obj (el_name c)))).
                        arrayReaches w options c item)
                else arrayReaches w options c (the (lookupCI obj (el_name c))))"
            if c: "c \<in> set (getChildElementsForElement w el)" for c
          proof (cases "lookupCI obj (el_name c) = None \<or> lookupCI obj (el_name c) = Some JNull")
            case True
            then show ?thesis by (simp add: emittedFor_Inl_iff)
          next
            case present: False
            have present': "\<not> (lookupCI (asJsonObject val) (el_name c) = None
                                \<or> lookupCI (asJsonObject val) (el_name c) = Some JNull)"
              using present aobj by simp
            show ?thesis
            proof (cases "Array_isArray (the (lookupCI obj (el_name c)))")
              case True
              have arr': "Array_isArray (the (lookupCI (asJsonObject val) (el_name c)))"
                using True aobj by simp
              have ih: "(\<exists>e. buildElement w options nd c item p = Inl e)
                          \<longleftrightarrow> arrayReaches w options c item"
                if "item \<in> set (arrayItems (the (lookupCI obj (el_name c))))" for item nd p
                using "1.IH"(1) [OF narr nn Some ntext' c present' arr'] that aobj by simp
              have "(\<exists>(i, item) \<in> set (enumerate 0 (arrayItems (the (lookupCI obj (el_name c))))).
                       \<exists>e. buildElement w options (node_ele (el_name c)) c item
                              (path @ ''.'' @ el_name c @ ''['' @ digits i @ '']'') = Inl e)
                    \<longleftrightarrow> (\<exists>item \<in> set (arrayItems (the (lookupCI obj (el_name c)))).
                          arrayReaches w options c item)"
                (is "?L \<longleftrightarrow> ?R")
              proof
                assume ?L
                then obtain i item where
                  "(i, item) \<in> set (enumerate 0 (arrayItems (the (lookupCI obj (el_name c)))))"
                  and "\<exists>e. buildElement w options (node_ele (el_name c)) c item
                              (path @ ''.'' @ el_name c @ ''['' @ digits i @ '']'') = Inl e"
                  by auto
                moreover from this(1)
                have "item \<in> set (arrayItems (the (lookupCI obj (el_name c))))"
                  by (auto simp: in_set_enumerate_eq)
                ultimately show ?R using ih by blast
              next
                assume ?R
                then obtain item where it: "item \<in> set (arrayItems (the (lookupCI obj (el_name c))))"
                  and r: "arrayReaches w options c item"
                  by auto
                then obtain i where "i < length (arrayItems (the (lookupCI obj (el_name c))))"
                  and "arrayItems (the (lookupCI obj (el_name c))) ! i = item"
                  by (auto simp: in_set_conv_nth)
                then have "(i, item) \<in> set (enumerate 0 (arrayItems (the (lookupCI obj (el_name c)))))"
                  by (simp add: in_set_enumerate_eq)
                moreover have "\<exists>e. buildElement w options (node_ele (el_name c)) c item
                              (path @ ''.'' @ el_name c @ ''['' @ digits i @ '']'') = Inl e"
                  using ih [OF it] r by simp
                ultimately show ?L by blast
              qed
              then show ?thesis using present True by (auto simp: emittedFor_Inl_iff)
            next
              case False
              have narr': "\<not> Array_isArray (the (lookupCI (asJsonObject val) (el_name c)))"
                using False aobj by simp
              have "(\<exists>e. buildElement w options nd c (the (lookupCI obj (el_name c))) p = Inl e)
                      \<longleftrightarrow> arrayReaches w options c (the (lookupCI obj (el_name c)))" for nd p
                using "1.IH"(2) [OF narr nn Some ntext' c present' narr'] aobj by simp
              then show ?thesis using present False by (auto simp: emittedFor_Inl_iff)
            qed
          qed
          have "(\<exists>e. buildElement w options node el (JObj obj) path = Inl e) \<longleftrightarrow>
                  (\<exists>c \<in> set (getChildElementsForElement w el).
                     \<exists>e. emittedFor w options obj path c = Inl e)"
            by (rule buildElement_object_Inl_iff [OF Some ntext])
          also have "\<dots> \<longleftrightarrow>
                  (\<exists>c \<in> set (getChildElementsForElement w el).
                     if lookupCI obj (el_name c) = None \<or> lookupCI obj (el_name c) = Some JNull
                     then False
                     else if Array_isArray (the (lookupCI obj (el_name c)))
                     then (\<exists>item \<in> set (arrayItems (the (lookupCI obj (el_name c)))).
                             arrayReaches w options c item)
                     else arrayReaches w options c (the (lookupCI obj (el_name c))))"
            using child by (intro bex_cong refl) simp
          also have "\<dots> \<longleftrightarrow> arrayReaches w options el (JObj obj)"
            using Some ntext
            by (auto simp: arrayReaches.simps [of w options el "JObj obj"] typeofObject_simps
                  asJsonObject_def)
          finally show ?thesis using val by simp
        qed
      qed
    qed
  qed
qed

lemma take_prefix:
  assumes "take (length (p @ q)) s = p @ q"
  shows "take (length p) s = p"
proof -
  from assms have "take (length p) (take (length (p @ q)) s) = take (length p) (p @ q)"
    by (rule arg_cong)
  then show ?thesis by (simp add: min_def)
qed

lemma buildElement_object_text:
  assumes "resolveComplexTypeForElement w el = Some ct"
      and "hasTextContent ct \<and> objGet obj (textNodeKey options) \<noteq> Undefined"
  shows "buildElement w options node el (JObj obj) path =
           Inr (node_txt (fold (applyAttribute obj (attributePrefix options))
                            (getAttributesForElement w el) node)
                  (stringOf (objGet obj (textNodeKey options))))"
  unfolding buildElement_object [OF assms(1)] Let_def by (rule if_P [OF assms(2)])

lemma buildElement_object_nontext:
  assumes "resolveComplexTypeForElement w el = Some ct"
      and "\<not> (hasTextContent ct \<and> objGet obj (textNodeKey options) \<noteq> Undefined)"
  shows "buildElement w options node el (JObj obj) path =
           (case collect (emittedFor w options obj path) (getChildElementsForElement w el) of
              Inl e \<Rightarrow> Inl e
            | Inr cs \<Rightarrow>
                Inr (if hasWildcardForElement w el
                     then wildcardPassThrough (attributePrefix options) (textNodeKey options)
                            (lowerSet (map el_name (getChildElementsForElement w el)))
                            obj path
                            (attachAll (fold (applyAttribute obj (attributePrefix options))
                                          (getAttributesForElement w el) node) cs)
                     else attachAll (fold (applyAttribute obj (attributePrefix options))
                                       (getAttributesForElement w el) node) cs))"
  unfolding buildElement_object [OF assms(1)] Let_def by (rule if_not_P [OF assms(2)])

text \<open>The path of the error continues the path that \<open>buildElement\<close> was called with.\<close>

lemma buildElement_error_path:
  "buildElement w options node el val path = Inl e \<Longrightarrow> take (length path) (err_path e) = path"
proof (induction w options node el val path arbitrary: e rule: buildElement.induct)
  case (1 w options node el val path)
  show ?case
  proof (cases "Array_isArray val")
    case True
    then show ?thesis using "1.prems" by (auto simp: buildElement_array)
  next
    case narr: False
    have nnull: "val \<noteq> JNull" using "1.prems" by (auto simp: buildElement_null)
    have tobj: "\<not> \<not> typeofObject val"
      using "1.prems" by (cases "typeofObject val") (auto simp: buildElement_scalar)
    obtain obj where val: "val = JObj obj"
      using narr nnull tobj typeofObject_cases [of val] by auto
    have aobj: "asJsonObject val = obj" using val by (simp add: asJsonObject_def)
    obtain ct where ct: "resolveComplexTypeForElement w el = Some ct"
      using "1.prems" val by (cases "resolveComplexTypeForElement w el")
                              (auto simp: buildElement_simple_object)
    have ntext: "\<not> (hasTextContent ct \<and> objGet obj (textNodeKey options) \<noteq> Undefined)"
    proof
      assume "hasTextContent ct \<and> objGet obj (textNodeKey options) \<noteq> Undefined"
      from buildElement_object_text [OF ct this] show False using "1.prems" val by simp
    qed
    have ntext': "\<not> (hasTextContent ct \<and> objGet (asJsonObject val) (textNodeKey options) \<noteq> Undefined)"
      using ntext aobj by simp
    have "collect (emittedFor w options obj path) (getChildElementsForElement w el) = Inl e"
    proof (cases "collect (emittedFor w options obj path) (getChildElementsForElement w el)")
      case (Inl e')
      then show ?thesis
        using "1.prems" val buildElement_object_nontext [OF ct ntext, of node path] by simp
    next
      case (Inr cs)
      then show ?thesis
        using "1.prems" val buildElement_object_nontext [OF ct ntext, of node path] by simp
    qed
    from collect_Inl_source [OF this]
    obtain c where c: "c \<in> set (getChildElementsForElement w el)"
      and ce: "emittedFor w options obj path c = Inl e"
      by blast
    note src = emittedFor_Inl_source [OF ce]
    have present: "\<not> (lookupCI (asJsonObject val) (el_name c) = None
                        \<or> lookupCI (asJsonObject val) (el_name c) = Some JNull)"
      using src aobj by simp
    show ?thesis
    proof (cases "Array_isArray (the (lookupCI obj (el_name c)))")
      case True
      then obtain i item where
        mem: "(i, item) \<in> set (enumerate 0 (arrayItems (the (lookupCI obj (el_name c)))))"
        and be: "buildElement w options (node_ele (el_name c)) c item
                   (path @ ''.'' @ el_name c @ ''['' @ digits i @ '']'') = Inl e"
        using src by auto
      have arr': "Array_isArray (the (lookupCI (asJsonObject val) (el_name c)))"
        using True aobj by simp
      have mem': "(i, item) \<in> set (enumerate 0 (arrayItems (the (lookupCI (asJsonObject val)
                                                                    (el_name c)))))"
        using mem aobj by simp
      have "take (length (path @ ''.'' @ el_name c @ ''['' @ digits i @ '']'')) (err_path e)
              = path @ ''.'' @ el_name c @ ''['' @ digits i @ '']''"
        by (rule "1.IH"(1) [OF narr nnull ct tobj refl refl ntext' refl refl c refl present arr'
                             mem' refl be])
      then show ?thesis by (rule take_prefix)
    next
      case False
      then have be: "buildElement w options (node_ele (el_name c)) c
                       (the (lookupCI obj (el_name c))) (path @ ''.'' @ el_name c) = Inl e"
        using src by simp
      have narr': "\<not> Array_isArray (the (lookupCI (asJsonObject val) (el_name c)))"
        using False aobj by simp
      have be': "buildElement w options (node_ele (el_name c)) c
                       (the (lookupCI (asJsonObject val) (el_name c))) (path @ ''.'' @ el_name c)
                 = Inl e"
        using be aobj by simp
      have "take (length (path @ ''.'' @ el_name c)) (err_path e) = path @ ''.'' @ el_name c"
        by (rule "1.IH"(2) [OF narr nnull ct tobj refl refl ntext' refl refl c refl present narr'
                             be'])
      then show ?thesis by (rule take_prefix)
    qed
  qed
qed

text \<open>
  Claim C1, as the code has it.  \<open>buildXml\<close> raises the mapping error exactly when the
  root element name is not in the schema, or an array is handed to \<open>buildElement\<close>
  itself: the root value is an array, or an item of an array under a declared child is
  itself an array.  \<open>buildElement\<close> raises it for every array it is given, whatever the
  element's \<open>isArray\<close>, with the path it was called with; an array under a declared
  child is expanded item by item and by itself raises nothing.  The path of the error
  starts at \<open>$\<close>.  The builder has no strict flag.
\<close>

theorem buildXml_error_iff:
  "((\<exists>e. buildXml json w options = Inl e) \<longleftrightarrow>
      (lookupElement w (rootElement w) = None
       \<or> (\<exists>rootEl. lookupElement w (rootElement w) = Some rootEl
             \<and> arrayReaches w options rootEl
                  (case lookupCI json (rootElement w) of Some v \<Rightarrow> v | None \<Rightarrow> JObj json))))
   \<and> (\<forall>e. buildXml json w options = Inl e \<longrightarrow> startsWith (err_path e) ''$'')
   \<and> (\<forall>node el val path.
         (\<exists>e. buildElement w options node el val path = Inl e) \<longleftrightarrow> arrayReaches w options el val)
   \<and> (\<forall>node el xs path.
         buildElement w options node el (JArr xs) path
           = Inl (XsdMappingError path (unexpectedArray el)))"
proof (intro conjI allI impI)
  show "(\<exists>e. buildXml json w options = Inl e) \<longleftrightarrow>
      (lookupElement w (rootElement w) = None
       \<or> (\<exists>rootEl. lookupElement w (rootElement w) = Some rootEl
             \<and> arrayReaches w options rootEl
                  (case lookupCI json (rootElement w) of Some v \<Rightarrow> v | None \<Rightarrow> JObj json)))"
  proof (cases "lookupElement w (rootElement w)")
    case None
    then show ?thesis by (simp add: buildXml_missing)
  next
    case (Some rootEl)
    then show ?thesis by (simp add: buildXml_found [OF Some] buildElement_fails_iff)
  qed
next
  fix e
  assume e: "buildXml json w options = Inl e"
  show "startsWith (err_path e) ''$''"
  proof (cases "lookupElement w (rootElement w)")
    case None
    then show ?thesis using e by (auto simp: buildXml_missing startsWith_def)
  next
    case (Some rootEl)
    have "buildElement w options
            (if truthy (opt_targetNamespace options)
             then Element (rootElement w) [(''xmlns'', the (opt_targetNamespace options))] []
             else node_ele (rootElement w))
            rootEl
            (case lookupCI json (rootElement w) of Some v \<Rightarrow> v | None \<Rightarrow> JObj json)
            (''$.'' @ rootElement w) = Inl e"
      using e unfolding buildXml_found [OF Some] .
    from buildElement_error_path [OF this]
    have "take (length (''$'' @ ''.'' @ rootElement w)) (err_path e) = ''$'' @ ''.'' @ rootElement w"
      by simp
    then have "take (length ''$'') (err_path e) = ''$''" by (rule take_prefix)
    then show ?thesis by (simp add: startsWith_def)
  qed
next
  fix node el val path
  show "(\<exists>e. buildElement w options node el val path = Inl e) \<longleftrightarrow> arrayReaches w options el val"
    by (rule buildElement_fails_iff)
next
  fix node el xs path
  show "buildElement w options node el (JArr xs) path
          = Inl (XsdMappingError path (unexpectedArray el))"
    by (simp add: buildElement_array Array_isArray_def)
qed

lemma arrayReaches_leaf:
  "arrayReaches w options el (JStr s) = False"
  "arrayReaches w options el (JArr xs) = True"
  "arrayReaches w options el JNull = False"
  by (simp_all add: arrayReaches.simps typeofObject_simps)

theorem buildXml_error_iff_witness:
  "lookupElement rootlessModel (rootElement rootlessModel) = None
   \<and> buildXml tagsInput rootlessModel defaultOptions
       = Inl (XsdMappingError ''$'' (rootNotFound ''envelope''))
   \<and> lookupElement listModel (rootElement listModel) = Some listElement
   \<and> isArray tagEl
   \<and> arrayReaches listModel defaultOptions listElement (JObj nestedTags)
   \<and> (\<exists>e. buildXml nestedTags listModel defaultOptions = Inl e)
   \<and> buildXml nestedTags listModel defaultOptions
       = Inl (XsdMappingError ''$.list.tag[1]'' (unexpectedArray tagEl))
   \<and> startsWith ''$.list.tag[1]'' ''$''
   \<and> \<not> arrayReaches listModel defaultOptions listElement (JObj tagsInput)
   \<and> \<not> (\<exists>e. buildXml tagsInput listModel defaultOptions = Inl e)"
proof -
  note iff = buildXml_error_iff [of _ listModel defaultOptions, THEN conjunct1]
  have r0: "lookupElement rootlessModel (rootElement rootlessModel) = None"
    by (simp add: walker_unfold rootlessModel_def personModel_def)
  have e0: "buildXml tagsInput rootlessModel defaultOptions
       = Inl (XsdMappingError ''$'' (rootNotFound ''envelope''))"
    using r0 by (simp add: buildXml_missing rootlessModel_def)
  have lk: "lookupCI nestedTags ''list'' = None" "lookupCI tagsInput ''list'' = None"
    "lookupCI nestedTags ''tag'' = Some (JArr [JStr ''a'', JArr [JStr ''b'']])"
    "lookupCI tagsInput ''tag'' = Some (JArr [JStr ''a'', JNull, JStr ''b''])"
    by (simp_all add: lookupCI_eq nestedTags_def tagsInput_def toLowerCase_def lowerChar_def)
  have a1: "arrayReaches listModel defaultOptions listElement (JObj nestedTags)"
    by (simp add: arrayReaches.simps [of listModel defaultOptions listElement] listModel_facts
          typeofObject_simps asJsonObject_def lk arrayReaches_leaf)
  have a2: "\<not> arrayReaches listModel defaultOptions listElement (JObj tagsInput)"
    by (simp add: arrayReaches.simps [of listModel defaultOptions listElement] listModel_facts
          typeofObject_simps asJsonObject_def lk arrayReaches_leaf)
  have f1: "\<exists>e. buildXml nestedTags listModel defaultOptions = Inl e"
    using iff [of nestedTags] a1 listModel_facts(1) by (simp add: listModel_facts(2) lk)
  have f2: "\<not> (\<exists>e. buildXml tagsInput listModel defaultOptions = Inl e)"
    using iff [of tagsInput] a2 listModel_facts(1) by (simp add: listModel_facts(2) lk)
  have nt: "\<not> (hasTextContent listT \<and> objGet nestedTags (textNodeKey defaultOptions) \<noteq> Undefined)"
    by (simp add: listModel_facts(8))
  have e1: "buildElement listModel defaultOptions (Element ''list'' [] []) listElement
              (JObj nestedTags) ''$.list''
            = Inl (XsdMappingError ''$.list.tag[1]'' (unexpectedArray tagEl))"
    by (simp add: buildElement_object_nontext [OF listModel_facts(3) nt] listModel_facts
          emittedFor_def lk typeofObject_simps single_def buildElement_scalar buildElement_array
          node_ele_def digits.simps)
  have b1: "buildXml nestedTags listModel defaultOptions
       = Inl (XsdMappingError ''$.list.tag[1]'' (unexpectedArray tagEl))"
    using e1
    by (simp add: buildXml_found [OF listModel_facts(1)] listModel_facts(2) lk truthy_def
          defaultOptions_facts node_ele_def)
  have ia: "isArray tagEl" by (simp add: tagEl_def)
  show ?thesis using r0 e0 listModel_facts(1) ia a1 f1 b1 a2 f2
    by (simp add: startsWith_def)
qed

theorem array_at_single_position_counterexample:
  "isArray (leaf ''CNPJ'') = False
   \<and> maxOccurs (leaf ''CNPJ'') = Bounded 1
   \<and> getChildElementsForElement cnpjModel prestadorElement = [leaf ''CNPJ'']
   \<and> lookupCI cnpjTwice ''CNPJ'' = Some (JArr [JStr ''1'', JStr ''2''])
   \<and> buildXml cnpjTwice cnpjModel defaultOptions
       = Inr (Element ''prestador'' []
                [Element ''CNPJ'' [] [Text ''1''], Element ''CNPJ'' [] [Text ''2'']])"
proof -
  have lk: "lookupCI cnpjTwice ''CNPJ'' = Some (JArr [JStr ''1'', JStr ''2''])"
    "lookupCI cnpjTwice ''prestador'' = None"
    by (simp_all add: lookupCI_eq cnpjTwice_def toLowerCase_def lowerChar_def)
  have nt: "\<not> (hasTextContent prestadorT \<and> objGet cnpjTwice (textNodeKey defaultOptions) \<noteq> Undefined)"
    by (simp add: cnpjModel_facts)
  have e1: "buildElement cnpjModel defaultOptions (Element ''prestador'' [] []) prestadorElement
              (JObj cnpjTwice) ''$.prestador''
            = Inr (Element ''prestador'' []
                     [Element ''CNPJ'' [] [Text ''1''], Element ''CNPJ'' [] [Text ''2'']])"
    by (simp add: buildElement_object_nontext [OF cnpjModel_facts(3) nt] cnpjModel_facts
          leaf_facts emittedFor_def lk typeofObject_simps single_def buildElement_scalar
          node_ele_def)
  have b1: "buildXml cnpjTwice cnpjModel defaultOptions
       = Inr (Element ''prestador'' []
                [Element ''CNPJ'' [] [Text ''1''], Element ''CNPJ'' [] [Text ''2'']])"
    using e1
    by (simp add: buildXml_found [OF cnpjModel_facts(1)] cnpjModel_facts(2) lk truthy_def
          defaultOptions_facts node_ele_def)
  show ?thesis using lk(1) b1 by (simp add: leaf_def cnpjModel_facts)
qed

section \<open>Parser: merges never overwrite\<close>

lemma keeps_refl: "keeps t t"
  by (simp add: keeps_def)

lemma keeps_trans: "keeps t t' \<Longrightarrow> keeps t' t'' \<Longrightarrow> keeps t t''"
  by (simp add: keeps_def)

lemma keeps_step:
  "keeps t (if \<not> Map_has t k then Map_set k v t else t)"
proof (cases "Map_has t k")
  case True
  then show ?thesis by (simp add: keeps_refl)
next
  case False
  then have "map_of t k = None"
    by (simp add: Map_has_def map_of_eq_None_iff)
  then show ?thesis using False
    by (auto simp: keeps_def Map_set_def Map_get_def AList.distinct_update AList.update_conv')
qed

lemma fold_keeps:
  assumes "\<And>x t. x \<in> set xs \<Longrightarrow> keeps t (f x t)"
  shows "keeps t (fold f xs t)"
  using assms
proof (induction xs arbitrary: t)
  case Nil
  then show ?case by (simp add: keeps_refl)
next
  case (Cons x xs)
  have "keeps t (f x t)" by (simp add: Cons.prems)
  moreover have "keeps (f x t) (fold f xs (f x t))"
    by (rule Cons.IH) (simp add: Cons.prems)
  ultimately show ?case by (auto intro: keeps_trans)
qed

lemma mergeAbsent_keeps: "keeps target (mergeAbsent source target)"
  unfolding mergeAbsent_def
  by (rule fold_keeps) (auto simp: keeps_step split: prod.splits)

lemma mergeImported_keeps: "keeps target (mergeImported prefixes source target)"
  unfolding mergeImported_def
proof (rule fold_keeps)
  fix x :: "string \<times> 'a" and t
  obtain k v where x: "x = (k, v)" by (cases x)
  have a: "keeps t (if \<not> Map_has t k then Map_set k v t else t)"
    by (rule keeps_step)
  have b: "keeps u (fold (\<lambda>pfx t'. (let pk = pfx @ '':'' @ k
                                      in if \<not> Map_has t' pk then Map_set pk v t' else t'))
                      prefixes u)" for u
    by (rule fold_keeps) (simp add: Let_def keeps_step)
  show "keeps t ((case x of (k, v) \<Rightarrow> \<lambda>t.
            fold (\<lambda>pfx t'. (let pk = pfx @ '':'' @ k
                             in if \<not> Map_has t' pk then Map_set pk v t' else t'))
                 prefixes
                 (if \<not> Map_has t k then Map_set k v t else t)) t)"
    using keeps_trans [OF a b] by (simp add: x)
qed

lemma Map_has_get: "Map_has t k \<longleftrightarrow> Map_get t k \<noteq> None"
  by (simp add: Map_has_def Map_get_def map_of_eq_None_iff)

lemma keeps_has: "keeps t t' \<Longrightarrow> Map_has t k \<Longrightarrow> Map_has t' k"
  by (auto simp: keeps_def Map_has_get)

lemma step_has: "Map_has (if \<not> Map_has t k then Map_set k v t else t) k"
  by (auto simp: Map_has_def Map_set_def AList.dom_update)

text \<open>After the import merge every imported key is bound, bare and under each prefix.\<close>

lemma mergeImported_has:
  assumes "(k, v) \<in> set source"
  shows "Map_has (mergeImported prefixes source target) k
       \<and> (\<forall>pfx \<in> set prefixes. Map_has (mergeImported prefixes source target) (pfx @ '':'' @ k))"
  using assms
proof (induction source arbitrary: target)
  case Nil
  then show ?case by simp
next
  case (Cons x source)
  let ?inner = "\<lambda>k v. fold (\<lambda>pfx t'. (let pk = pfx @ '':'' @ k
                                         in if \<not> Map_has t' pk then Map_set pk v t' else t'))"
  let ?one = "\<lambda>(k, v) t. ?inner k v prefixes (if \<not> Map_has t k then Map_set k v t else t)"
  have unfold: "mergeImported prefixes (x # source) target
                  = mergeImported prefixes source (?one x target)"
    by (simp add: mergeImported_def)
  show ?case
  proof (cases "(k, v) \<in> set source")
    case True
    then show ?thesis using Cons.IH [OF True] unfold by simp
  next
    case False
    then have x: "x = (k, v)" using Cons.prems by simp
    have inner_keeps: "keeps u (?inner k v ps u)" for ps u
      by (rule fold_keeps) (simp add: Let_def keeps_step)
    have inner_has: "\<forall>pfx \<in> set ps. Map_has (?inner k v ps u) (pfx @ '':'' @ k)" for ps u
    proof (induction ps arbitrary: u)
      case Nil
      then show ?case by simp
    next
      case (Cons p ps)
      let ?u1 = "if \<not> Map_has u (p @ '':'' @ k) then Map_set (p @ '':'' @ k) v u else u"
      have eq: "?inner k v (p # ps) u = ?inner k v ps ?u1"
        by (simp add: Let_def)
      have "Map_has ?u1 (p @ '':'' @ k)" by (rule step_has)
      then have h1: "Map_has (?inner k v ps ?u1) (p @ '':'' @ k)"
        by (rule keeps_has [OF inner_keeps])
      show ?case
      proof
        fix pfx
        assume "pfx \<in> set (p # ps)"
        then consider "pfx = p" | "pfx \<in> set ps" by auto
        then show "Map_has (?inner k v (p # ps) u) (pfx @ '':'' @ k)"
        proof cases
          case 1
          show ?thesis unfolding eq 1 by (rule h1)
        next
          case 2
          show ?thesis unfolding eq using Cons.IH [of ?u1] 2 by blast
        qed
      qed
    qed
    let ?t1 = "if \<not> Map_has target k then Map_set k v target else target"
    have h0: "Map_has (?inner k v prefixes ?t1) k"
      by (rule keeps_has [OF inner_keeps step_has])
    have rest: "keeps (?one x target) (mergeImported prefixes source (?one x target))"
      by (rule mergeImported_keeps)
    have one: "Map_has (?one x target) k"
      and pre: "\<forall>pfx \<in> set prefixes. Map_has (?one x target) (pfx @ '':'' @ k)"
      using h0 inner_has [of prefixes ?t1] by (simp_all add: x)
    have "Map_has (mergeImported prefixes source (?one x target)) k"
      by (rule keeps_has [OF rest one])
    moreover have "\<forall>pfx \<in> set prefixes.
                     Map_has (mergeImported prefixes source (?one x target)) (pfx @ '':'' @ k)"
      using pre keeps_has [OF rest] by simp
    ultimately show ?thesis unfolding unfold by simp
  qed
qed

lemma fold_option_None:
  assumes "\<And>x. f x None = None"
  shows "fold f xs None = None"
  using assms by (induction xs) simp_all

lemma processIncludes_Nil: "processIncludes rec base [] st = Some st"
  by (simp add: processIncludes_def)

lemma processIncludes_Cons:
  "processIncludes rec base (loc # rest) (visited, els, cts, sts) =
     (if loc = [] then processIncludes rec base rest (visited, els, cts, sts)
      else
        (case rec loc (Some base) visited of
           None \<Rightarrow> None
         | Some (visited', Inl err) \<Rightarrow> processIncludes rec base rest (visited', els, cts, sts)
         | Some (visited', Inr includedModel) \<Rightarrow>
             processIncludes rec base rest
               (visited',
                mergeAbsent (elements includedModel) els,
                mergeAbsent (complexTypes includedModel) cts,
                mergeAbsent (simpleTypes includedModel) sts)))"
  by (simp add: processIncludes_def fold_option_None split: option.splits sum.splits prod.splits)

lemma processImports_Nil: "processImports rec base pm [] st = Some st"
  by (simp add: processImports_def)

lemma processImports_Cons:
  "processImports rec base pm ((ns, loc) # rest) (visited, els, cts, sts) =
     (if loc = [] then processImports rec base pm rest (visited, els, cts, sts)
      else
        (case rec loc (Some base) visited of
           None \<Rightarrow> None
         | Some (visited', Inl err) \<Rightarrow> processImports rec base pm rest (visited', els, cts, sts)
         | Some (visited', Inr importedModel) \<Rightarrow>
             processImports rec base pm rest
               (visited',
                mergeAbsent (elements importedModel) els,
                mergeImported (map fst (filter (\<lambda>(pfx, uri). uri = ns) pm))
                  (complexTypes importedModel) cts,
                mergeImported (map fst (filter (\<lambda>(pfx, uri). uri = ns) pm))
                  (simpleTypes importedModel) sts)))"
  by (simp add: processImports_def fold_option_None Let_def
        split: option.splits sum.splits prod.splits)

lemma keepsAll_refl: "keepsAll r r"
  by (cases r) (simp add: keepsAll_def keeps_refl)

lemma keepsAll_trans: "keepsAll r r' \<Longrightarrow> keepsAll r' r'' \<Longrightarrow> keepsAll r r''"
  by (cases r, cases r', cases r'') (auto simp: keepsAll_def intro: keeps_trans)

lemma processIncludes_keeps:
  "processIncludes rec base incs (visited, r) = Some (visited', r') \<Longrightarrow> keepsAll r r'"
proof (induction incs arbitrary: visited r)
  case Nil
  then show ?case by (simp add: processIncludes_Nil keepsAll_refl)
next
  case (Cons loc incs)
  obtain els cts sts where r: "r = (els, cts, sts)" by (cases r)
  show ?case
  proof (cases "loc = []")
    case True
    then show ?thesis using Cons.prems Cons.IH r by (simp add: processIncludes_Cons)
  next
    case False
    show ?thesis
    proof (cases "rec loc (Some base) visited")
      case None
      then show ?thesis using Cons.prems False r by (simp add: processIncludes_Cons)
    next
      case (Some res)
      obtain v1 out where res: "res = (v1, out)" by (cases res)
      show ?thesis
      proof (cases out)
        case (Inl err)
        then show ?thesis using Cons.prems Cons.IH False r Some res
          by (simp add: processIncludes_Cons)
      next
        case (Inr m)
        let ?r1 = "(mergeAbsent (elements m) els, mergeAbsent (complexTypes m) cts,
                    mergeAbsent (simpleTypes m) sts)"
        have "processIncludes rec base incs (v1, ?r1) = Some (visited', r')"
          using Cons.prems False r Some res Inr by (simp add: processIncludes_Cons)
        then have "keepsAll ?r1 r'" by (rule Cons.IH)
        moreover have "keepsAll r ?r1"
          by (simp add: r keepsAll_def mergeAbsent_keeps)
        ultimately show ?thesis by (auto intro: keepsAll_trans)
      qed
    qed
  qed
qed

lemma processImports_keeps:
  "processImports rec base pm imps (visited, r) = Some (visited', r') \<Longrightarrow> keepsAll r r'"
proof (induction imps arbitrary: visited r)
  case Nil
  then show ?case by (simp add: processImports_Nil keepsAll_refl)
next
  case (Cons imp imps)
  obtain ns loc where imp: "imp = (ns, loc)" by (cases imp)
  obtain els cts sts where r: "r = (els, cts, sts)" by (cases r)
  show ?case
  proof (cases "loc = []")
    case True
    then show ?thesis using Cons.prems Cons.IH r imp by (simp add: processImports_Cons)
  next
    case False
    show ?thesis
    proof (cases "rec loc (Some base) visited")
      case None
      then show ?thesis using Cons.prems False r imp by (simp add: processImports_Cons)
    next
      case (Some res)
      obtain v1 out where res: "res = (v1, out)" by (cases res)
      show ?thesis
      proof (cases out)
        case (Inl err)
        then show ?thesis using Cons.prems Cons.IH False r imp Some res
          by (simp add: processImports_Cons)
      next
        case (Inr m)
        let ?ps = "map fst (filter (\<lambda>(pfx, uri). uri = ns) pm)"
        let ?r1 = "(mergeAbsent (elements m) els, mergeImported ?ps (complexTypes m) cts,
                    mergeImported ?ps (simpleTypes m) sts)"
        have "processImports rec base pm imps (v1, ?r1) = Some (visited', r')"
          using Cons.prems False r imp Some res Inr by (simp add: processImports_Cons)
        then have "keepsAll ?r1 r'" by (rule Cons.IH)
        moreover have "keepsAll r ?r1"
          by (simp add: r keepsAll_def mergeAbsent_keeps mergeImported_keeps)
        ultimately show ?thesis by (auto intro: keepsAll_trans)
      qed
    qed
  qed
qed

lemma fold_Map_set_distinct:
  "distinct (map fst m) \<Longrightarrow>
     distinct (map fst (fold (\<lambda>x m. if skip x then m else Map_set (key x) (val x) m) xs m))"
  by (induction xs arbitrary: m) (simp_all add: Map_set_def AList.distinct_update)

lemma collect_distinct:
  "distinct (map fst (collectElements doc))"
  "distinct (map fst (collectComplexTypes doc))"
  "distinct (map fst (collectSimpleTypes doc))"
proof -
  show "distinct (map fst (collectElements doc))"
    unfolding collectElements_def
    using fold_Map_set_distinct [of "[]" "\<lambda>x. False" el_name "\<lambda>x. x" "doc_elements doc"]
    by simp
  show "distinct (map fst (collectComplexTypes doc))"
    unfolding collectComplexTypes_def
    using fold_Map_set_distinct [of "[]" "\<lambda>ct. ct_name ct = []" ct_name "\<lambda>x. x"
            "doc_complexTypes doc"]
    by simp
  show "distinct (map fst (collectSimpleTypes doc))"
    unfolding collectSimpleTypes_def
    using fold_Map_set_distinct [of "[]" "\<lambda>st. st_name st = []" st_name "\<lambda>x. x"
            "doc_simpleTypes doc"]
    by simp
qed

text \<open>
  What a call that reads a schema file returns: the registries of the result keep the
  file's own declarations, whatever its includes and imports brought.
\<close>

lemma parse_file_result:
  assumes "parseXsdInternal fuel env xsdPath baseDir visited = Some (visited', Inr m)"
      and "resolvedPathOf env xsdPath baseDir \<notin> visited"
  shows "\<exists>doc. Map_get (files env) (resolvedPathOf env xsdPath baseDir) = Some (Some doc)
           \<and> keepsAll (collectElements doc, collectComplexTypes doc, collectSimpleTypes doc)
                 (elements m, complexTypes m, simpleTypes m)"
proof (cases fuel)
  case 0
  then show ?thesis using assms(1) by simp
next
  case (Suc n)
  let ?p = "resolvedPathOf env xsdPath baseDir"
  show ?thesis
  proof (cases "Map_get (files env) ?p")
    case None
    then show ?thesis using assms Suc by (simp add: resolvedPathOf_def Let_def)
  next
    case (Some content)
    show ?thesis
    proof (cases content)
      case None
      then show ?thesis using assms Suc Some by (simp add: resolvedPathOf_def Let_def)
    next
      case (Some doc)
      let ?r0 = "(collectElements doc, collectComplexTypes doc, collectSimpleTypes doc)"
      from assms Suc \<open>Map_get (files env) ?p = Some content\<close> Some
      obtain v1 r1 v3 els cts sts where
        inc: "processIncludes (parseXsdInternal n env) (dirname env ?p) (doc_includes doc)
                (insert ?p visited, ?r0) = Some (v1, r1)"
        and imp: "processImports (parseXsdInternal n env) (dirname env ?p) (prefixMapOf doc)
                (doc_imports doc) (v1, r1) = Some (v3, els, cts, sts)"
        and m: "elements m = els" "complexTypes m = cts" "simpleTypes m = sts"
        by (auto simp: resolvedPathOf_def Let_def split: option.splits prod.splits)
      have "keepsAll ?r0 r1" using inc by (rule processIncludes_keeps)
      moreover have "keepsAll r1 (els, cts, sts)" using imp by (rule processImports_keeps)
      ultimately have "keepsAll ?r0 (elements m, complexTypes m, simpleTypes m)"
        using m by (auto intro: keepsAll_trans)
      then show ?thesis using \<open>Map_get (files env) ?p = Some content\<close> Some by simp
    qed
  qed
qed

lemma parse_result_distinct:
  assumes "parseXsdInternal fuel env xsdPath baseDir visited = Some (visited', Inr m)"
  shows "distinct (map fst (elements m)) \<and> distinct (map fst (complexTypes m))
         \<and> distinct (map fst (simpleTypes m))"
proof (cases "resolvedPathOf env xsdPath baseDir \<in> visited")
  case True
  then have "m = emptyModel"
    using assms by (cases fuel) (simp_all add: resolvedPathOf_def Let_def)
  then show ?thesis by (simp add: emptyModel_def)
next
  case False
  from parse_file_result [OF assms False]
  obtain doc where
    "keepsAll (collectElements doc, collectComplexTypes doc, collectSimpleTypes doc)
       (elements m, complexTypes m, simpleTypes m)"
    by blast
  then show ?thesis using collect_distinct [of doc] by (simp add: keepsAll_def keeps_def)
qed

lemma pair_facts:
  "ct_name addressT = ''AddressType''"
  "ct_name localAddressT = ''AddressType''"
  "ct_name personTypeT = ''PersonType''"
  "st_name phoneST = ''PhoneType''"
  "localAddressT \<noteq> addressT"
  by (simp_all add: addressT_def localAddressT_def personTypeT_def phoneST_def leaf_def)

lemma pair_dirs:
  "dirname pairEnv ''/s/person.xsd'' = ''/s''"
  "dirname pairEnv ''/s/contact.xsd'' = ''/s''"
  "resolve1 pairEnv p = p"
  "resolve2 pairEnv b p = b @ ''/'' @ p"
  "files pairEnv = [(''/s/person.xsd'', Some personDoc), (''/s/contact.xsd'', Some contactDoc)]"
  by (simp_all add: pairEnv_def)

lemma contact_parse:
  "parseXsdInternal (Suc (Suc 0)) pairEnv ''contact.xsd'' (Some ''/s'') {''/s/person.xsd''}
     = Some ({''/s/person.xsd'', ''/s/contact.xsd''}, Inr contactModel)"
  by (simp add: pair_dirs Let_def truthy_def Map_get_def contactDoc_def processIncludes_def
        processImports_def collectElements_def collectComplexTypes_def collectSimpleTypes_def
        prefixMapOf_def Map_set_def Map_has_def mergeAbsent_def mergeImported_def emptyModel_def
        pair_facts contactModel_def insert_commute)

lemma pair_parse:
  "parseXsdInternal (Suc (Suc (Suc 0))) pairEnv ''/s/person.xsd'' None {}
     = Some ({''/s/person.xsd'', ''/s/contact.xsd''}, Inr pairModel)"
proof -
  have imp: "processImports (parseXsdInternal (Suc (Suc 0)) pairEnv) ''/s''
               [(''ct'', ''urn:contact'')] [(''urn:contact'', ''contact.xsd'')]
               ({''/s/person.xsd''}, [(''person'', typed ''person'' ''PersonType'')],
                [(''PersonType'', personTypeT), (''AddressType'', localAddressT)], [])
             = Some ({''/s/person.xsd'', ''/s/contact.xsd''},
                     elements pairModel, complexTypes pairModel, simpleTypes pairModel)"
    by (simp add: processImports_Cons processImports_Nil contact_parse contactModel_def
          mergeAbsent_def mergeImported_def Map_has_def Map_set_def pairModel_def
          del: parseXsdInternal.simps)
  have nm: "el_name (typed ''person'' ''PersonType'') = ''person''"
    by (simp add: typed_def)
  show ?thesis
    by (simp add: pair_dirs Let_def truthy_def Map_get_def personDoc_def processIncludes_def
          collectElements_def collectComplexTypes_def collectSimpleTypes_def
          prefixMapOf_def Map_set_def pair_facts nm imp)
      (simp add: pairModel_def)
qed

lemma mergeAbsent_has:
  assumes "(k, v) \<in> set source"
  shows "Map_has (mergeAbsent source target) k"
  using assms
proof (induction source arbitrary: target)
  case Nil
  then show ?case by simp
next
  case (Cons x source)
  obtain k' v' where x: "x = (k', v')" by (cases x)
  let ?t1 = "if \<not> Map_has target k' then Map_set k' v' target else target"
  have unfold: "mergeAbsent (x # source) target = mergeAbsent source ?t1"
    by (simp add: mergeAbsent_def x)
  show ?case
  proof (cases "(k, v) = x")
    case True
    then have "Map_has ?t1 k" using step_has [of target k' v'] x by simp
    then show ?thesis
      unfolding unfold by (rule keeps_has [OF mergeAbsent_keeps])
  next
    case False
    then have "(k, v) \<in> set source" using Cons.prems by simp
    then show ?thesis unfolding unfold by (rule Cons.IH)
  qed
qed

lemma registeredFrom_keeps:
  "registeredFrom ps m' r \<Longrightarrow> keepsAll r r' \<Longrightarrow> registeredFrom ps m' r'"
  by (cases r, cases r') (simp add: registeredFrom_def keepsAll_def, blast dest: keeps_has)

lemma mergeImported_has_bare:
  "(k, v) \<in> set source \<Longrightarrow> Map_has (mergeImported ps source target) k"
  using mergeImported_has [of k v source ps target] by simp

lemma mergeImported_has_prefixed:
  "(k, v) \<in> set source \<Longrightarrow> pfx \<in> set ps
     \<Longrightarrow> Map_has (mergeImported ps source target) (pfx @ CHR '':'' # k)"
  using mergeImported_has [of k v source ps target] by simp

lemma registeredFrom_import_step:
  "registeredFrom ps m'
     (mergeAbsent (elements m') els, mergeImported ps (complexTypes m') cts,
      mergeImported ps (simpleTypes m') sts)"
  by (auto simp: registeredFrom_def mergeAbsent_has
        intro: mergeImported_has_bare mergeImported_has_prefixed)

lemma mergeImported_Nil_prefixes: "mergeImported [] source target = mergeAbsent source target"
  by (simp add: mergeImported_def mergeAbsent_def)

lemma registeredFrom_include_step:
  "registeredFrom [] m'
     (mergeAbsent (elements m') els, mergeAbsent (complexTypes m') cts,
      mergeAbsent (simpleTypes m') sts)"
  by (auto simp: registeredFrom_def mergeAbsent_has)

lemma processImports_registers:
  assumes "processImports rec base pm imps (v0, r0) = Some (v', r')"
      and "(ns, loc) \<in> set imps" and "loc \<noteq> []"
  shows "\<exists>v v1 out. rec loc (Some base) v = Some (v1, out)
           \<and> (\<forall>m'. out = Inr m' \<longrightarrow>
                  registeredFrom (map fst (filter (\<lambda>(pfx, uri). uri = ns) pm)) m' r')"
  using assms
proof (induction imps arbitrary: v0 r0)
  case Nil
  then show ?case by simp
next
  case (Cons imp imps)
  obtain ns1 loc1 where imp: "imp = (ns1, loc1)" by (cases imp)
  obtain els cts sts where r0: "r0 = (els, cts, sts)" by (cases r0)
  note run = Cons.prems(1) [unfolded imp r0 processImports_Cons]
  show ?case
  proof (cases "loc1 = []")
    case True
    then have "(ns, loc) \<in> set imps" using Cons.prems imp by auto
    moreover have "processImports rec base pm imps (v0, r0) = Some (v', r')"
      using run True r0 by simp
    ultimately show ?thesis using Cons.IH Cons.prems(3) by blast
  next
    case False
    show ?thesis
    proof (cases "rec loc1 (Some base) v0")
      case None
      then show ?thesis using run False by simp
    next
      case (Some res)
      obtain v1 out where res: "res = (v1, out)" by (cases res)
      let ?ps = "map fst (filter (\<lambda>(pfx, uri). uri = ns1) pm)"
      define r1 where "r1 = (case out of Inl err \<Rightarrow> (els, cts, sts)
                              | Inr m \<Rightarrow> (mergeAbsent (elements m) els,
                                           mergeImported ?ps (complexTypes m) cts,
                                           mergeImported ?ps (simpleTypes m) sts))"
      have rest: "processImports rec base pm imps (v1, r1) = Some (v', r')"
        using run False Some res by (cases out) (simp_all add: r1_def)
      show ?thesis
      proof (cases "(ns, loc) = (ns1, loc1)")
        case True
        have "\<forall>m'. out = Inr m' \<longrightarrow> registeredFrom ?ps m' r'"
        proof (intro allI impI)
          fix m' assume "out = Inr m'"
          then have "registeredFrom ?ps m' r1"
            by (simp add: r1_def registeredFrom_import_step)
          then show "registeredFrom ?ps m' r'"
            using processImports_keeps [OF rest] by (rule registeredFrom_keeps)
        qed
        then show ?thesis using Some res True
          by - (rule exI [of _ v0], rule exI [of _ v1], rule exI [of _ out], simp)
      next
        case False
        then have "(ns, loc) \<in> set imps" using Cons.prems imp by auto
        then show ?thesis using Cons.IH [OF rest] Cons.prems(3) by blast
      qed
    qed
  qed
qed

lemma processIncludes_registers:
  assumes "processIncludes rec base incs (v0, r0) = Some (v', r')"
      and "loc \<in> set incs" and "loc \<noteq> []"
  shows "\<exists>v v1 out. rec loc (Some base) v = Some (v1, out)
           \<and> (\<forall>m'. out = Inr m' \<longrightarrow> registeredFrom [] m' r')"
  using assms
proof (induction incs arbitrary: v0 r0)
  case Nil
  then show ?case by simp
next
  case (Cons loc1 incs)
  obtain els cts sts where r0: "r0 = (els, cts, sts)" by (cases r0)
  note run = Cons.prems(1) [unfolded r0 processIncludes_Cons]
  show ?case
  proof (cases "loc1 = []")
    case True
    then have "loc \<in> set incs" using Cons.prems by auto
    moreover have "processIncludes rec base incs (v0, r0) = Some (v', r')"
      using run True r0 by simp
    ultimately show ?thesis using Cons.IH Cons.prems(3) by blast
  next
    case False
    show ?thesis
    proof (cases "rec loc1 (Some base) v0")
      case None
      then show ?thesis using run False by simp
    next
      case (Some res)
      obtain v1 out where res: "res = (v1, out)" by (cases res)
      define r1 where "r1 = (case out of Inl err \<Rightarrow> (els, cts, sts)
                              | Inr m \<Rightarrow> (mergeAbsent (elements m) els,
                                           mergeAbsent (complexTypes m) cts,
                                           mergeAbsent (simpleTypes m) sts))"
      have rest: "processIncludes rec base incs (v1, r1) = Some (v', r')"
        using run False Some res by (cases out) (simp_all add: r1_def)
      show ?thesis
      proof (cases "loc = loc1")
        case True
        have "\<forall>m'. out = Inr m' \<longrightarrow> registeredFrom [] m' r'"
        proof (intro allI impI)
          fix m' assume "out = Inr m'"
          then have "registeredFrom [] m' r1"
            by (simp add: r1_def registeredFrom_include_step)
          then show "registeredFrom [] m' r'"
            using processIncludes_keeps [OF rest] by (rule registeredFrom_keeps)
        qed
        then show ?thesis using Some res True
          by - (rule exI [of _ v0], rule exI [of _ v1], rule exI [of _ out], simp)
      next
        case False
        then have "loc \<in> set incs" using Cons.prems by auto
        then show ?thesis using Cons.IH [OF rest] Cons.prems(3) by blast
      qed
    qed
  qed
qed

lemma parse_file_loops:
  assumes "parseXsdInternal fuel env xsdPath baseDir visited = Some (visited', Inr m)"
      and "resolvedPathOf env xsdPath baseDir \<notin> visited"
      and "Map_get (files env) (resolvedPathOf env xsdPath baseDir) = Some (Some doc)"
  shows "\<exists>n v1 r1.
           fuel = Suc n
           \<and> processIncludes (parseXsdInternal n env)
                 (dirname env (resolvedPathOf env xsdPath baseDir)) (doc_includes doc)
                 (insert (resolvedPathOf env xsdPath baseDir) visited,
                  collectElements doc, collectComplexTypes doc, collectSimpleTypes doc)
               = Some (v1, r1)
           \<and> processImports (parseXsdInternal n env)
                 (dirname env (resolvedPathOf env xsdPath baseDir)) (prefixMapOf doc)
                 (doc_imports doc) (v1, r1)
               = Some (visited', elements m, complexTypes m, simpleTypes m)"
proof (cases fuel)
  case 0
  then show ?thesis using assms(1) by simp
next
  case (Suc n)
  let ?p = "resolvedPathOf env xsdPath baseDir"
  from assms Suc
  obtain v1 r1 els cts sts where
    inc: "processIncludes (parseXsdInternal n env) (dirname env ?p) (doc_includes doc)
            (insert ?p visited, collectElements doc, collectComplexTypes doc,
             collectSimpleTypes doc) = Some (v1, r1)"
    and imp: "processImports (parseXsdInternal n env) (dirname env ?p) (prefixMapOf doc)
            (doc_imports doc) (v1, r1) = Some (visited', els, cts, sts)"
    and m: "elements m = els" "complexTypes m = cts" "simpleTypes m = sts"
    by (auto simp: resolvedPathOf_def Let_def split: option.splits prod.splits)
  show ?thesis
    using Suc inc imp m
    by - (rule exI [of _ n], rule exI [of _ v1], rule exI [of _ r1], simp)
qed

lemma prefixMapOf_fold:
  "map_of (fold (\<lambda>(prefix, uri) pm. if prefix \<noteq> ''xs'' then Map_set prefix uri pm else pm) xs pm)
          pfx =
     (if pfx = ''xs'' then map_of pm pfx
      else (case map_of (rev xs) pfx of Some u \<Rightarrow> Some u | None \<Rightarrow> map_of pm pfx))"
proof (induction xs arbitrary: pm)
  case Nil
  then show ?case by simp
next
  case (Cons x xs)
  obtain p u where x: "x = (p, u)" by (cases x)
  show ?case
    by (simp add: x Cons.IH Map_set_def update_conv' map_add_def split: option.splits)
qed

lemma prefixMapOf_distinct_fold:
  "distinct (map fst pm) \<Longrightarrow>
     distinct (map fst (fold (\<lambda>(prefix, uri) pm.
                                if prefix \<noteq> ''xs'' then Map_set prefix uri pm else pm) xs pm))"
  by (induction xs arbitrary: pm)
     (simp_all add: Map_set_def AList.distinct_update split: prod.splits)

lemma fst_filter_snd:
  "pfx \<in> set (map fst (filter (\<lambda>(p, u). u = ns) pm)) \<longleftrightarrow> (pfx, ns) \<in> set pm"
  by (induction pm) auto

text \<open>
  The prefixes collected for an import: those other than \<open>xs\<close> whose last \<open>xmlns\<close>
  declaration in the schema names the namespace of the import.
\<close>

lemma prefixes_of_import:
  "set (map fst (filter (\<lambda>(pfx, uri). uri = ns) (prefixMapOf doc))) =
     {pfx. pfx \<noteq> ''xs'' \<and> map_of (rev (doc_xmlns doc)) pfx = Some ns}"
proof (rule set_eqI)
  fix pfx
  have d: "distinct (map fst (prefixMapOf doc))"
    unfolding prefixMapOf_def by (rule prefixMapOf_distinct_fold) simp
  have m: "map_of (prefixMapOf doc) pfx =
             (if pfx = ''xs'' then None else map_of (rev (doc_xmlns doc)) pfx)"
    unfolding prefixMapOf_def by (simp add: prefixMapOf_fold split: option.splits)
  have "(pfx, ns) \<in> set (prefixMapOf doc) \<longleftrightarrow> map_of (prefixMapOf doc) pfx = Some ns"
    by (rule map_of_eq_Some_iff [OF d, symmetric])
  also have "\<dots> \<longleftrightarrow> pfx \<noteq> ''xs'' \<and> map_of (rev (doc_xmlns doc)) pfx = Some ns"
    unfolding m by simp
  finally have iff: "(pfx, ns) \<in> set (prefixMapOf doc) \<longleftrightarrow>
                  pfx \<noteq> ''xs'' \<and> map_of (rev (doc_xmlns doc)) pfx = Some ns" .
  show "pfx \<in> set (map fst (filter (\<lambda>(pfx, uri). uri = ns) (prefixMapOf doc))) \<longleftrightarrow>
          pfx \<in> {pfx. pfx \<noteq> ''xs'' \<and> map_of (rev (doc_xmlns doc)) pfx = Some ns}"
    unfolding fst_filter_snd mem_Collect_eq by (rule iff)
qed

end
